theory Spec2Isabelle
  imports Complex_Main "HOL-Library.Word"
begin

unbundle bit_operations_syntax

section \<open>JavaScript values used by the toolkit\<close>

text \<open>
  A JavaScript string is a sequence of UTF-16 code units, and \<open>length\<close>, \<open>slice\<close> and
  indexing count code units. The names of keys and of colours are plain ASCII
  identifiers and are written as HOL strings. Every \<open>number\<close> the modelled widget code
  handles is an index, a length or a count, and is an \<open>int\<close>; only the bar chart
  divides, and its values are finite doubles, written as the \<open>real\<close> numbers they are.
\<close>

type_synonym jsstring = "16 word list"

datatype js_error = TypeError | RangeError

text \<open>\<open>a % b\<close>: the remainder takes the sign of the dividend. (For \<open>b = 0\<close> JavaScript
  gives NaN; the only use below is guarded by \<open>len === 0\<close>.)\<close>

definition js_rem :: "int \<Rightarrow> int \<Rightarrow> int" where
  "js_rem a b = sgn a * (\<bar>a\<bar> mod \<bar>b\<bar>)"

text \<open>\<open>arr[i]\<close>: \<open>undefined\<close> (here \<open>None\<close>) outside the array.\<close>

definition js_index :: "'a list \<Rightarrow> int \<Rightarrow> 'a option" where
  "js_index xs i = (if 0 \<le> i \<and> i < int (length xs) then Some (xs ! nat i) else None)"

text \<open>\<open>arr[i] = v\<close>: inside the array the element is replaced. At or beyond the end
  the array grows up to index \<open>i\<close>; the skipped positions are holes, which every reader in
  the modelled code maps to the value \<open>hole\<close> (\<open>?? ""\<close>, a falsy pixel, a missing colour).
  A negative \<open>i\<close> names a property that is not an element: elements and length stay.\<close>

definition js_set :: "'a \<Rightarrow> 'a list \<Rightarrow> int \<Rightarrow> 'a \<Rightarrow> 'a list" where
  "js_set hole xs i v =
     (if i < 0 then xs
      else if i < int (length xs) then xs[nat i := v]
      else xs @ replicate (nat i - length xs) hole @ [v])"

text \<open>\<open>s.slice(b, e)\<close> and \<open>s.slice(b)\<close>: negative positions count from the end, and
  both positions are clamped into the string.\<close>

definition js_pos :: "int \<Rightarrow> int \<Rightarrow> int" where
  "js_pos n p = (if p < 0 then max (n + p) 0 else min p n)"

definition js_slice :: "'a list \<Rightarrow> int \<Rightarrow> int \<Rightarrow> 'a list" where
  "js_slice s b e =
     (let n = int (length s); from = js_pos n b; to = js_pos n e
      in take (nat (to - from)) (drop (nat from) s))"

definition js_slice_from :: "'a list \<Rightarrow> int \<Rightarrow> 'a list" where
  "js_slice_from s b = js_slice s b (int (length s))"

text \<open>\<open>arr.splice(start, deleteCount, ...items)\<close>, returning the array afterwards.\<close>

definition js_splice :: "'a list \<Rightarrow> int \<Rightarrow> int \<Rightarrow> 'a list \<Rightarrow> 'a list" where
  "js_splice xs start deleteCount items =
     (let n = int (length xs); st = js_pos n start;
          d = min (max deleteCount 0) (n - st)
      in take (nat st) xs @ items @ drop (nat (st + d)) xs)"

text \<open>\<open>s.split(sep)\<close> for a separator of one code unit.\<close>

fun js_split :: "'a \<Rightarrow> 'a list \<Rightarrow> 'a list list" where
  "js_split sep [] = [[]]"
| "js_split sep (c # cs) =
     (if c = sep then [] # js_split sep cs
      else (case js_split sep cs of
              [] \<Rightarrow> [[c]]
            | l # ls \<Rightarrow> (c # l) # ls))"

definition newline :: "16 word" where
  "newline = 0x0A"

text \<open>\<open>for (let i = lo; i < hi; i++) s = body(i, s)\<close>.\<close>

function for_loop :: "int \<Rightarrow> int \<Rightarrow> (int \<Rightarrow> 's \<Rightarrow> 's) \<Rightarrow> 's \<Rightarrow> 's" where
  "for_loop i hi body s = (if i < hi then for_loop (i + 1) hi body (body i s) else s)"
  by pat_completeness auto
termination
  by (relation "measure (\<lambda>(i, hi, body, s). nat (hi - i))") auto

declare for_loop.simps [simp del]

section \<open>Key events\<close>

text \<open>The fields of \<open>readline.Key\<close> the widgets read. An absent \<open>name\<close> or \<open>sequence\<close>
  is \<open>None\<close>; an absent modifier is falsy.\<close>

record Key =
  name :: "string option"
  sequence :: "jsstring option"
  ctrl :: bool
  meta :: bool
  shift :: bool

text \<open>The test \<open>key.sequence && !key.ctrl && !key.meta && key.sequence.length === 1\<close>
  shared by \<open>Input.handleKey\<close> and \<open>Textarea.handleKey\<close>.\<close>

definition single_char :: "Key \<Rightarrow> bool" where
  "single_char key =
     (case sequence key of
        None \<Rightarrow> False
      | Some sq \<Rightarrow> sq \<noteq> [] \<and> \<not> ctrl key \<and> \<not> meta key \<and> length sq = 1)"

definition key_text :: "Key \<Rightarrow> jsstring" where
  "key_text key = (case sequence key of None \<Rightarrow> [] | Some sq \<Rightarrow> sq)"

section \<open>ScrollState\<close>

record ScrollState =
  scroll_x :: int
  scroll_y :: int

definition ScrollState_new :: ScrollState where
  "ScrollState_new = \<lparr>scroll_x = 0, scroll_y = 0\<rparr>"

definition setX :: "int \<Rightarrow> int \<Rightarrow> ScrollState \<Rightarrow> ScrollState" where
  "setX v mx s = s\<lparr>scroll_x := max 0 (min v mx)\<rparr>"

definition setY :: "int \<Rightarrow> int \<Rightarrow> ScrollState \<Rightarrow> ScrollState" where
  "setY v mx s = s\<lparr>scroll_y := max 0 (min v mx)\<rparr>"

definition clampHorizontal :: "int \<Rightarrow> int \<Rightarrow> ScrollState \<Rightarrow> ScrollState" where
  "clampHorizontal cursor viewportWidth s =
     (let s1 = (if cursor < scroll_x s then s\<lparr>scroll_x := cursor\<rparr> else s);
          s2 = (if cursor \<ge> scroll_x s1 + viewportWidth
                then s1\<lparr>scroll_x := cursor - viewportWidth + 1\<rparr> else s1)
      in s2\<lparr>scroll_x := max 0 (scroll_x s2)\<rparr>)"

definition clampVertical :: "int \<Rightarrow> int \<Rightarrow> int \<Rightarrow> ScrollState \<Rightarrow> ScrollState" where
  "clampVertical cursor viewportHeight maxScroll s =
     (let s1 = (if cursor < scroll_y s then s\<lparr>scroll_y := cursor\<rparr> else s);
          s2 = (if cursor \<ge> scroll_y s1 + viewportHeight
                then s1\<lparr>scroll_y := cursor - viewportHeight + 1\<rparr> else s1)
      in s2\<lparr>scroll_y := max 0 (min (scroll_y s2) maxScroll)\<rparr>)"

section \<open>FocusManager\<close>

text \<open>The manager holds its index and the list of focusables; of each focusable only
  the \<open>_focused\<close> flag that \<open>focus()\<close> and \<open>blur()\<close> write is kept.\<close>

record FocusManager =
  idx :: int
  focusables :: "bool list"

definition FocusManager_new :: "bool list \<Rightarrow> FocusManager" where
  "FocusManager_new fs = \<lparr>idx = -1, focusables = fs\<rparr>"

definition hasFocus :: "FocusManager \<Rightarrow> bool" where
  "hasFocus fm = (idx fm \<ge> 0)"

text \<open>\<open>this.current?.blur()\<close> and \<open>this.current?.focus()\<close>: nothing happens when
  \<open>_focusables[_idx]\<close> is \<open>undefined\<close>.\<close>

definition set_current :: "bool \<Rightarrow> FocusManager \<Rightarrow> FocusManager" where
  "set_current b fm =
     (case js_index (focusables fm) (idx fm) of
        None \<Rightarrow> fm
      | Some _ \<Rightarrow> fm\<lparr>focusables := (focusables fm)[nat (idx fm) := b]\<rparr>)"

definition blurActive :: "FocusManager \<Rightarrow> FocusManager" where
  "blurActive fm = set_current False fm"

definition focusAt :: "int \<Rightarrow> FocusManager \<Rightarrow> FocusManager" where
  "focusAt i fm =
     (let fm1 = blurActive fm;
          fm2 = fm1\<lparr>idx := max 0 (min i (int (length (focusables fm1)) - 1))\<rparr>
      in set_current True fm2)"

text \<open>The parameter of \<open>cycle\<close> has the type \<open>1 | -1\<close>.\<close>

datatype direction = Forward | Backward

fun direction_value :: "direction \<Rightarrow> int" where
  "direction_value Forward = 1"
| "direction_value Backward = -1"

definition cycle :: "direction \<Rightarrow> FocusManager \<Rightarrow> FocusManager" where
  "cycle d fm =
     (let len = int (length (focusables fm)) in
      if len = 0 then fm
      else
        (let fm1 = blurActive fm;
             fm2 = fm1\<lparr>idx := js_rem (idx fm1 + direction_value d + len) len\<rparr>
         in set_current True fm2))"

definition clear_focus :: "FocusManager \<Rightarrow> FocusManager" where
  "clear_focus fm = (blurActive fm)\<lparr>idx := -1\<rparr>"

definition initFirst :: "FocusManager \<Rightarrow> FocusManager" where
  "initFirst fm =
     (if length (focusables fm) > 0 \<and> idx fm < 0 then focusAt 0 fm else fm)"

datatype focus_op = FocusAt int | Cycle direction | Clear | InitFirst

fun focus_step :: "FocusManager \<Rightarrow> focus_op \<Rightarrow> FocusManager" where
  "focus_step fm (FocusAt i) = focusAt i fm"
| "focus_step fm (Cycle d) = cycle d fm"
| "focus_step fm Clear = clear_focus fm"
| "focus_step fm InitFirst = initFirst fm"

definition focus_run :: "FocusManager \<Rightarrow> focus_op list \<Rightarrow> FocusManager" where
  "focus_run fm ops = foldl focus_step fm ops"

text \<open>The focus index is in \<open>[-1, N-1]\<close>.\<close>

definition focus_index_ok :: "FocusManager \<Rightarrow> bool" where
  "focus_index_ok fm = (-1 \<le> idx fm \<and> idx fm \<le> int (length (focusables fm)) - 1)"

section \<open>Input\<close>

text \<open>The state \<open>handleKey\<close> reads and writes. \<open>onChange\<close> is an observer that is handed
  the new value; the placeholder and the display type are used by rendering only.\<close>

record Input =
  in_width :: int
  in_value :: jsstring
  in_cursor :: int
  in_scroll :: ScrollState
  in_focused :: bool

definition Input_new :: "int \<Rightarrow> Input" where
  "Input_new w =
     \<lparr>in_width = w, in_value = [], in_cursor = 0, in_scroll = ScrollState_new,
      in_focused = False\<rparr>"

definition Input_clampScroll :: "Input \<Rightarrow> Input" where
  "Input_clampScroll i =
     i\<lparr>in_scroll := clampHorizontal (in_cursor i) (in_width i - 2) (in_scroll i)\<rparr>"

definition Input_handleKey :: "Key \<Rightarrow> Input \<Rightarrow> bool \<times> Input" where
  "Input_handleKey key i =
     (let n = name key; v = in_value i; c = in_cursor i in
      if n = Some ''left'' then
        (True, Input_clampScroll (i\<lparr>in_cursor := max 0 (c - 1)\<rparr>))
      else if n = Some ''right'' then
        (True, Input_clampScroll (i\<lparr>in_cursor := min (int (length v)) (c + 1)\<rparr>))
      else if n = Some ''home'' then
        (True, Input_clampScroll (i\<lparr>in_cursor := 0\<rparr>))
      else if n = Some ''end'' then
        (True, Input_clampScroll (i\<lparr>in_cursor := int (length v)\<rparr>))
      else if n = Some ''backspace'' then
        (True, Input_clampScroll
           (if c > 0
            then i\<lparr>in_value := js_slice v 0 (c - 1) @ js_slice_from v c,
                   in_cursor := c - 1\<rparr>
            else i))
      else if n = Some ''delete'' then
        (True, Input_clampScroll
           (if c < int (length v)
            then i\<lparr>in_value := js_slice v 0 c @ js_slice_from v (c + 1)\<rparr>
            else i))
      else if n \<noteq> Some ''return'' \<and> n \<noteq> Some ''escape'' \<and> n \<noteq> Some ''tab''
              \<and> single_char key then
        (True, Input_clampScroll
           (i\<lparr>in_value := js_slice v 0 c @ key_text key @ js_slice_from v c,
              in_cursor := c + 1\<rparr>))
      else (False, i))"

definition Input_handleKeys :: "Input \<Rightarrow> Key list \<Rightarrow> Input" where
  "Input_handleKeys i ks = foldl (\<lambda>s k. snd (Input_handleKey k s)) i ks"

text \<open>A printable single-character key carrying the code unit \<open>ch\<close>: none of the names
  \<open>Input.handleKey\<close> treats specially, no \<open>ctrl\<close> or \<open>meta\<close>, and \<open>sequence\<close> the
  one-unit string \<open>ch\<close>.\<close>

definition printable_key :: "Key \<Rightarrow> 16 word \<Rightarrow> bool" where
  "printable_key key ch =
     (name key \<notin> Some ` {''left'', ''right'', ''home'', ''end'', ''backspace'', ''delete'',
                          ''return'', ''escape'', ''tab''}
      \<and> sequence key = Some [ch] \<and> \<not> ctrl key \<and> \<not> meta key)"

section \<open>Textarea\<close>

record Textarea =
  ta_width :: int
  ta_height :: int
  lines :: "jsstring list"
  cursorRow :: int
  cursorCol :: int
  ta_scroll :: ScrollState
  ta_focused :: bool

definition initial_lines :: "jsstring \<Rightarrow> jsstring list" where
  "initial_lines v = (if length v > 0 then js_split newline v else [[]])"

definition Textarea_new :: "int \<Rightarrow> int \<Rightarrow> jsstring \<Rightarrow> Textarea" where
  "Textarea_new w h initialValue =
     \<lparr>ta_width = w, ta_height = h, lines = initial_lines initialValue,
      cursorRow = 0, cursorCol = 0, ta_scroll = ScrollState_new, ta_focused = False\<rparr>"

definition Textarea_setValue :: "jsstring \<Rightarrow> Textarea \<Rightarrow> Textarea" where
  "Textarea_setValue v t =
     t\<lparr>lines := initial_lines v, cursorRow := 0, cursorCol := 0,
       ta_scroll := ScrollState_new\<rparr>"

definition ta_iw :: "Textarea \<Rightarrow> int" where
  "ta_iw t = ta_width t - 2"

definition ta_ih :: "Textarea \<Rightarrow> int" where
  "ta_ih t = ta_height t - 2"

text \<open>\<open>this._lines[i] ?? ""\<close>.\<close>

definition line_at :: "Textarea \<Rightarrow> int \<Rightarrow> jsstring" where
  "line_at t i = (case js_index (lines t) i of None \<Rightarrow> [] | Some l \<Rightarrow> l)"

definition currentLine :: "Textarea \<Rightarrow> jsstring" where
  "currentLine t = line_at t (cursorRow t)"

definition set_line :: "int \<Rightarrow> jsstring \<Rightarrow> Textarea \<Rightarrow> Textarea" where
  "set_line i l t = t\<lparr>lines := js_set [] (lines t) i l\<rparr>"

definition moveCursorLeft :: "Textarea \<Rightarrow> Textarea" where
  "moveCursorLeft t =
     (if cursorCol t > 0 then t\<lparr>cursorCol := cursorCol t - 1\<rparr>
      else if cursorRow t > 0 then
        (let t1 = t\<lparr>cursorRow := cursorRow t - 1\<rparr>
         in t1\<lparr>cursorCol := int (length (currentLine t1))\<rparr>)
      else t)"

definition moveCursorRight :: "Textarea \<Rightarrow> Textarea" where
  "moveCursorRight t =
     (let line = currentLine t in
      if cursorCol t < int (length line) then t\<lparr>cursorCol := cursorCol t + 1\<rparr>
      else if cursorRow t < int (length (lines t)) - 1 then
        t\<lparr>cursorRow := cursorRow t + 1, cursorCol := 0\<rparr>
      else t)"

definition moveCursorUp :: "Textarea \<Rightarrow> Textarea" where
  "moveCursorUp t =
     (if cursorRow t > 0 then
        (let t1 = t\<lparr>cursorRow := cursorRow t - 1\<rparr>
         in t1\<lparr>cursorCol := min (cursorCol t1) (int (length (currentLine t1)))\<rparr>)
      else t)"

definition moveCursorDown :: "Textarea \<Rightarrow> Textarea" where
  "moveCursorDown t =
     (if cursorRow t < int (length (lines t)) - 1 then
        (let t1 = t\<lparr>cursorRow := cursorRow t + 1\<rparr>
         in t1\<lparr>cursorCol := min (cursorCol t1) (int (length (currentLine t1)))\<rparr>)
      else t)"

definition insertChar :: "jsstring \<Rightarrow> Textarea \<Rightarrow> Textarea" where
  "insertChar ch t =
     (let line = currentLine t;
          t1 = set_line (cursorRow t)
                 (js_slice line 0 (cursorCol t) @ ch @ js_slice_from line (cursorCol t)) t
      in t1\<lparr>cursorCol := cursorCol t1 + 1\<rparr>)"

definition insertNewline :: "Textarea \<Rightarrow> Textarea" where
  "insertNewline t =
     (let line = currentLine t;
          t1 = set_line (cursorRow t) (js_slice line 0 (cursorCol t)) t;
          t2 = t1\<lparr>lines := js_splice (lines t1) (cursorRow t1 + 1) 0
                               [js_slice_from line (cursorCol t1)]\<rparr>
      in t2\<lparr>cursorRow := cursorRow t2 + 1, cursorCol := 0\<rparr>)"

definition deleteBackward :: "Textarea \<Rightarrow> Textarea" where
  "deleteBackward t =
     (if cursorCol t > 0 then
        (let line = currentLine t;
             t1 = set_line (cursorRow t)
                    (js_slice line 0 (cursorCol t - 1) @ js_slice_from line (cursorCol t)) t
         in t1\<lparr>cursorCol := cursorCol t1 - 1\<rparr>)
      else if cursorRow t > 0 then
        (let prevLine = line_at t (cursorRow t - 1);
             t1 = t\<lparr>cursorCol := int (length prevLine)\<rparr>;
             t2 = set_line (cursorRow t1 - 1) (prevLine @ currentLine t1) t1;
             t3 = t2\<lparr>lines := js_splice (lines t2) (cursorRow t2) 1 []\<rparr>
         in t3\<lparr>cursorRow := cursorRow t3 - 1\<rparr>)
      else t)"

definition deleteForward :: "Textarea \<Rightarrow> Textarea" where
  "deleteForward t =
     (let line = currentLine t in
      if cursorCol t < int (length line) then
        set_line (cursorRow t)
          (js_slice line 0 (cursorCol t) @ js_slice_from line (cursorCol t + 1)) t
      else if cursorRow t < int (length (lines t)) - 1 then
        (let t1 = set_line (cursorRow t) (line @ line_at t (cursorRow t + 1)) t
         in t1\<lparr>lines := js_splice (lines t1) (cursorRow t1 + 1) 1 []\<rparr>)
      else t)"

definition Textarea_clampScroll :: "Textarea \<Rightarrow> Textarea" where
  "Textarea_clampScroll t =
     (let maxScrollY = max 0 (int (length (lines t)) - ta_ih t);
          s1 = clampVertical (cursorRow t) (ta_ih t) maxScrollY (ta_scroll t);
          s2 = clampHorizontal (cursorCol t) (ta_iw t) s1
      in t\<lparr>ta_scroll := s2\<rparr>)"

definition Textarea_handleKey :: "Key \<Rightarrow> Textarea \<Rightarrow> bool \<times> Textarea" where
  "Textarea_handleKey key t =
     (let n = name key in
      if n = Some ''tab'' \<or> n = Some ''escape'' then (False, t)
      else if n = Some ''left'' then (True, Textarea_clampScroll (moveCursorLeft t))
      else if n = Some ''right'' then (True, Textarea_clampScroll (moveCursorRight t))
      else if n = Some ''up'' then (True, Textarea_clampScroll (moveCursorUp t))
      else if n = Some ''down'' then (True, Textarea_clampScroll (moveCursorDown t))
      else if n = Some ''home'' then
        (True, Textarea_clampScroll
           (if ctrl key then t\<lparr>cursorRow := 0, cursorCol := 0\<rparr> else t\<lparr>cursorCol := 0\<rparr>))
      else if n = Some ''end'' then
        (True, Textarea_clampScroll
           (let t1 = (if ctrl key then t\<lparr>cursorRow := int (length (lines t)) - 1\<rparr> else t)
            in t1\<lparr>cursorCol := int (length (currentLine t1))\<rparr>))
      else if n = Some ''backspace'' then (True, Textarea_clampScroll (deleteBackward t))
      else if n = Some ''delete'' then (True, Textarea_clampScroll (deleteForward t))
      else if n = Some ''return'' then (True, Textarea_clampScroll (insertNewline t))
      else if single_char key then
        (True, Textarea_clampScroll (insertChar (key_text key) t))
      else (False, t))"

definition Textarea_handleKeys :: "Textarea \<Rightarrow> Key list \<Rightarrow> Textarea" where
  "Textarea_handleKeys t ks = foldl (\<lambda>s k. snd (Textarea_handleKey k s)) t ks"

text \<open>The cursor invariant of the editor: the line list is non-empty, the cursor row
  names a line, and the cursor column is a position of that line.\<close>

definition ta_inv :: "Textarea \<Rightarrow> bool" where
  "ta_inv t =
     (lines t \<noteq> [] \<and> 0 \<le> cursorRow t \<and> cursorRow t < int (length (lines t))
      \<and> 0 \<le> cursorCol t \<and> cursorCol t \<le> int (length (currentLine t)))"


section \<open>Container\<close>

text \<open>
  What the panel reads of a child widget when it scrolls the focused child into
  view: the identity of the object (\<open>wid\<close>, compared by \<open>===\<close>), \<open>lineCount()\<close>,
  \<open>naturalWidth()\<close>, whether the object has an \<open>isFocused\<close> member (and so is one
  of the focusables), and \<open>activeLineHint?.()\<close>, \<open>None\<close> when the widget has no such
  method.
\<close>

record Child =
  wid :: nat
  lineCount :: int
  naturalWidth :: int
  isFocusable :: bool
  activeLineHint :: "int option"

datatype ContainerState = Default | Select | Focus

record Container =
  style_width :: int
  style_height :: int
  children :: "Child list"
  state :: ContainerState
  scroll :: ScrollState
  focus :: FocusManager

definition Container_new :: "int \<Rightarrow> int \<Rightarrow> Child list \<Rightarrow> Container" where
  "Container_new w h cs =
     \<lparr>style_width = w, style_height = h, children = cs, state = Default,
      scroll = ScrollState_new,
      focus = FocusManager_new (map (\<lambda>_. False) (filter isFocusable cs))\<rparr>"

definition ih :: "Container \<Rightarrow> int" where
  "ih c = style_height c - 3"

definition totalLines :: "Container \<Rightarrow> int" where
  "totalLines c = foldl (\<lambda>s ch. s + lineCount ch) 0 (children c)"

definition maxScrollY :: "Container \<Rightarrow> int" where
  "maxScrollY c = max 0 (totalLines c - ih c)"

text \<open>\<open>this._focus.current\<close>: the focusable at the focus index, as a child.\<close>

definition current :: "Container \<Rightarrow> Child option" where
  "current c = js_index (filter isFocusable (children c)) (idx (focus c))"

definition hint_of :: "Child \<Rightarrow> int" where
  "hint_of target = (case activeLineHint target of None \<Rightarrow> 0 | Some h \<Rightarrow> h)"

text \<open>The body of \<open>_scrollToFocused\<close> once the loop has reached the target.\<close>

definition scroll_to_line :: "Container \<Rightarrow> Child \<Rightarrow> int \<Rightarrow> Container" where
  "scroll_to_line c target lineOffset =
     (let hint = hint_of target;
          targetLine = lineOffset + hint;
          topAnchor = lineOffset;
          h = ih c
      in if targetLine < scroll_y (scroll c) then
           c\<lparr>scroll := setY (min targetLine topAnchor) (maxScrollY c) (scroll c)\<rparr>
         else if targetLine \<ge> scroll_y (scroll c) + h then
           (let desired = targetLine - h + 1
            in c\<lparr>scroll := setY (min desired topAnchor) (maxScrollY c) (scroll c)\<rparr>)
         else c)"

fun scroll_loop :: "Container \<Rightarrow> Child \<Rightarrow> int \<Rightarrow> Child list \<Rightarrow> Container" where
  "scroll_loop c target lineOffset [] = c"
| "scroll_loop c target lineOffset (child # rest) =
     (if wid child = wid target then scroll_to_line c target lineOffset
      else scroll_loop c target (lineOffset + lineCount child) rest)"

definition scrollToFocused :: "Container \<Rightarrow> Container" where
  "scrollToFocused c =
     (case current c of
        None \<Rightarrow> c
      | Some target \<Rightarrow> scroll_loop c target 0 (children c))"

text \<open>The cumulative row offset of a child: the sum of the row counts of the children
  before it.\<close>

definition offset_of :: "Container \<Rightarrow> Child \<Rightarrow> int" where
  "offset_of c target =
     sum_list (map lineCount (takeWhile (\<lambda>ch. wid ch \<noteq> wid target) (children c)))"

text \<open>A panel of viewport height 5: twenty-one content rows, the only focusable child
  an \<open>Input\<close> at offset 10, focused.\<close>

definition example_input :: Child where
  "example_input =
     \<lparr>wid = 1, lineCount = 1, naturalWidth = 20, isFocusable = True, activeLineHint = None\<rparr>"

definition example_children :: "Child list" where
  "example_children =
     [\<lparr>wid = 0, lineCount = 10, naturalWidth = 20, isFocusable = False, activeLineHint = None\<rparr>,
      example_input,
      \<lparr>wid = 2, lineCount = 10, naturalWidth = 20, isFocusable = False, activeLineHint = None\<rparr>]"

definition example_panel :: "int \<Rightarrow> Container" where
  "example_panel y =
     (Container_new 30 8 example_children)
       \<lparr>state := Focus, scroll := \<lparr>scroll_x = 0, scroll_y = y\<rparr>,
        focus := \<lparr>idx = 0, focusables = [True]\<rparr>\<rparr>"

text \<open>A panel of viewport height 5 with ten content rows only: after ten rows comes a
  \<open>Radio\<close> without options, which has no rows and hovers at 0.\<close>

definition example_radio :: Child where
  "example_radio =
     \<lparr>wid = 1, lineCount = 0, naturalWidth = 3, isFocusable = True, activeLineHint = Some 0\<rparr>"

definition example_short_panel :: Container where
  "example_short_panel =
     (Container_new 30 8
        [\<lparr>wid = 0, lineCount = 10, naturalWidth = 20, isFocusable = False,
          activeLineHint = None\<rparr>,
         example_radio])
       \<lparr>state := Focus, focus := \<lparr>idx = 0, focusables = [True]\<rparr>\<rparr>"

section \<open>BrailleCanvas\<close>

definition BRAILLE_BITS :: "nat list list" where
  "BRAILLE_BITS = [[0x01, 0x08], [0x02, 0x10], [0x04, 0x20], [0x40, 0x80]]"

record BrailleCanvas =
  cols :: int
  rows :: int
  pixels :: "bool list list"
  colors :: "string option list list"

text \<open>The constructor. \<open>Array.from({length: ph}, f)\<close> makes no row for \<open>ph \<le> 0\<close>
  and throws a RangeError for \<open>ph \<ge> 2^32\<close>; otherwise each row is
  \<open>new Array(pw)\<close>, which throws a RangeError unless \<open>0 \<le> pw < 2^32\<close>.\<close>

definition BrailleCanvas_new :: "int \<Rightarrow> int \<Rightarrow> js_error + BrailleCanvas" where
  "BrailleCanvas_new cs rs =
     (let ph = rs * 4; pw = cs * 2 in
      if ph \<ge> 2 ^ 32 then Inl RangeError
      else if ph > 0 \<and> (pw < 0 \<or> pw \<ge> 2 ^ 32) then Inl RangeError
      else Inr \<lparr>cols = cs, rows = rs,
                pixels = replicate (nat ph) (replicate (nat pw) False),
                colors = replicate (nat ph) (replicate (nat pw) None)\<rparr>)"

definition pixelWidth :: "BrailleCanvas \<Rightarrow> int" where
  "pixelWidth c = cols c * 2"

definition pixelHeight :: "BrailleCanvas \<Rightarrow> int" where
  "pixelHeight c = rows c * 4"

definition clear :: "BrailleCanvas \<Rightarrow> BrailleCanvas" where
  "clear c = c\<lparr>pixels := map (map (\<lambda>_. False)) (pixels c),
              colors := map (map (\<lambda>_. None)) (colors c)\<rparr>"

text \<open>\<open>setPixel\<close>. Past the bounds test, \<open>this.pixels[py]![px] = true\<close> throws a
  TypeError when the row is missing, and so does the write to \<open>this.colors\<close>.\<close>

definition setPixel :: "int \<Rightarrow> int \<Rightarrow> string option \<Rightarrow> BrailleCanvas \<Rightarrow> js_error + BrailleCanvas" where
  "setPixel px py k c =
     (if px < 0 \<or> px \<ge> pixelWidth c \<or> py < 0 \<or> py \<ge> pixelHeight c then Inr c
      else
        (case js_index (pixels c) py of
           None \<Rightarrow> Inl TypeError
         | Some prow \<Rightarrow>
             (case js_index (colors c) py of
                None \<Rightarrow> Inl TypeError
              | Some crow \<Rightarrow>
                  Inr (c\<lparr>pixels := (pixels c)[nat py := js_set False prow px True],
                         colors := (colors c)[nat py := js_set None crow px k]\<rparr>))))"

text \<open>\<open>this.pixels[py]?.[px]\<close> as a condition, and \<open>this.colors[py]?.[px] ?? "white"\<close>.\<close>

definition pixel_at :: "BrailleCanvas \<Rightarrow> int \<Rightarrow> int \<Rightarrow> bool" where
  "pixel_at c px py =
     (case js_index (pixels c) py of
        None \<Rightarrow> False
      | Some prow \<Rightarrow> (case js_index prow px of None \<Rightarrow> False | Some b \<Rightarrow> b))"

definition color_at :: "BrailleCanvas \<Rightarrow> int \<Rightarrow> int \<Rightarrow> string" where
  "color_at c px py =
     (case js_index (colors c) py of
        None \<Rightarrow> ''white''
      | Some crow \<Rightarrow>
          (case js_index crow px of
             None \<Rightarrow> ''white''
           | Some None \<Rightarrow> ''white''
           | Some (Some k) \<Rightarrow> k))"

record Cell =
  cell_ch :: "16 word"
  cell_color :: string

text \<open>The body of the two loops of \<open>getCell\<close>, on the triple \<open>(bits, color, found)\<close>.\<close>

definition getCell_step ::
  "BrailleCanvas \<Rightarrow> int \<Rightarrow> int \<Rightarrow> int \<Rightarrow> int \<Rightarrow> nat \<times> string \<times> bool \<Rightarrow> nat \<times> string \<times> bool" where
  "getCell_step c col row r cc st =
     (case st of (bits, color, found) \<Rightarrow>
        (let py = row * 4 + r; px = col * 2 + cc in
         if pixel_at c px py then
           (let bits' = bits OR (BRAILLE_BITS ! nat r ! nat cc) in
            if \<not> found then (bits', color_at c px py, True) else (bits', color, found))
         else (bits, color, found)))"

definition getCell :: "int \<Rightarrow> int \<Rightarrow> BrailleCanvas \<Rightarrow> Cell" where
  "getCell col row c =
     (case for_loop 0 4 (\<lambda>r. for_loop 0 2 (\<lambda>cc. getCell_step c col row r cc))
             (0, ''gray'', False) of
        (bits, color, found) \<Rightarrow> \<lparr>cell_ch = of_nat (0x2800 + bits), cell_color = color\<rparr>)"

text \<open>\<open>drawBar\<close>: the rows \<open>top .. bottom\<close> (\<open>top\<close> is written \<open>top'\<close>), both included, of the columns
  \<open>x .. x + w - 1\<close>. An exception ends the loops.\<close>

definition drawBar ::
  "int \<Rightarrow> int \<Rightarrow> int \<Rightarrow> int \<Rightarrow> string option \<Rightarrow> BrailleCanvas \<Rightarrow> js_error + BrailleCanvas" where
  "drawBar x bottom top' w k c =
     for_loop x (x + w)
       (\<lambda>px. for_loop top' (bottom + 1)
          (\<lambda>py r. case r of Inl e \<Rightarrow> Inl e | Inr c' \<Rightarrow> setPixel px py k c'))
       (Inr c)"

text \<open>The scan order of the sub-pixels of a cell, as pairs (row, column) within the
  cell, and the bit a sub-pixel contributes to the glyph.\<close>

definition cell_scan :: "(int \<times> int) list" where
  "cell_scan = [(0, 0), (0, 1), (1, 0), (1, 1), (2, 0), (2, 1), (3, 0), (3, 1)]"

definition sub_pixel :: "BrailleCanvas \<Rightarrow> int \<Rightarrow> int \<Rightarrow> int \<times> int \<Rightarrow> bool" where
  "sub_pixel c col row p = pixel_at c (col * 2 + snd p) (row * 4 + fst p)"

definition sub_color :: "BrailleCanvas \<Rightarrow> int \<Rightarrow> int \<Rightarrow> int \<times> int \<Rightarrow> string" where
  "sub_color c col row p = color_at c (col * 2 + snd p) (row * 4 + fst p)"

definition sub_bit :: "BrailleCanvas \<Rightarrow> int \<Rightarrow> int \<Rightarrow> int \<times> int \<Rightarrow> nat" where
  "sub_bit c col row p =
     (if sub_pixel c col row p then BRAILLE_BITS ! nat (fst p) ! nat (snd p) else 0)"

text \<open>A canvas as the constructor makes it and \<open>setPixel\<close> and \<open>clear\<close> keep it:
  \<open>rows * 4\<close> rows of \<open>cols * 2\<close> pixels and colours.\<close>

definition wf_canvas :: "BrailleCanvas \<Rightarrow> bool" where
  "wf_canvas c =
     (length (pixels c) = nat (pixelHeight c) \<and> length (colors c) = nat (pixelHeight c)
      \<and> list_all (\<lambda>r. length r = nat (pixelWidth c)) (pixels c)
      \<and> list_all (\<lambda>r. length r = nat (pixelWidth c)) (colors c))"

text \<open>A canvas of one cell: as constructed; after \<open>setPixel(0, 1, "red")\<close>; and after
  a further \<open>setPixel(0, 0, "blue")\<close> or \<open>setPixel(1, 1, "blue")\<close>.\<close>

definition blank_canvas :: BrailleCanvas where
  "blank_canvas =
     \<lparr>cols = 1, rows = 1,
      pixels = [[False, False], [False, False], [False, False], [False, False]],
      colors = [[None, None], [None, None], [None, None], [None, None]]\<rparr>"

definition red_canvas :: BrailleCanvas where
  "red_canvas =
     \<lparr>cols = 1, rows = 1,
      pixels = [[False, False], [True, False], [False, False], [False, False]],
      colors = [[None, None], [Some ''red'', None], [None, None], [None, None]]\<rparr>"

definition blue_above_canvas :: BrailleCanvas where
  "blue_above_canvas =
     \<lparr>cols = 1, rows = 1,
      pixels = [[True, False], [True, False], [False, False], [False, False]],
      colors = [[Some ''blue'', None], [Some ''red'', None], [None, None], [None, None]]\<rparr>"

definition blue_beside_canvas :: BrailleCanvas where
  "blue_beside_canvas =
     \<lparr>cols = 1, rows = 1,
      pixels = [[False, False], [True, True], [False, False], [False, False]],
      colors = [[None, None], [Some ''red'', Some ''blue''], [None, None], [None, None]]\<rparr>"

section \<open>BarChart\<close>

text \<open>
  The chart computes in doubles. A finite double is the real number it stands for, and
  the result of a division or a multiplication is the exact result rounded to a
  double: the rounding is the parameter \<open>fl\<close> of the definitions below. The literal
  \<open>0.001\<close> is \<open>fl (1/1000)\<close>. Sums, differences and products of the pixel counts are
  exact. \<open>Math.floor\<close> and \<open>Math.round\<close> are exact on a double, \<open>Math.round x\<close> being
  \<open>\<lfloor>x + 1/2\<rfloor>\<close>. A division by zero gives NaN or an infinity, which is no number of
  the model: it is the result \<open>None\<close>. The labels and the title are read by
  \<open>renderLine\<close> only.
\<close>

definition PALETTE :: "string list" where
  "PALETTE = [''cyan'', ''yellow'', ''green'', ''magenta'', ''red'', ''blue'', ''white'']"

record BarChart =
  bc_width :: int
  bc_height :: int
  bar_values :: "real list"
  canvas :: BrailleCanvas
  dirty :: bool
  bc_max :: real

definition BarChart_new :: "int \<Rightarrow> int \<Rightarrow> real list \<Rightarrow> js_error + BarChart" where
  "BarChart_new w h vs =
     (case BrailleCanvas_new (w - 2) (h - 3) of
        Inl e \<Rightarrow> Inl e
      | Inr cv \<Rightarrow>
          Inr \<lparr>bc_width = w, bc_height = h, bar_values = vs, canvas = cv, dirty = True,
               bc_max = 1\<rparr>)"

definition setData :: "real list \<Rightarrow> BarChart \<Rightarrow> BarChart" where
  "setData vs b = b\<lparr>bar_values := vs, dirty := True\<rparr>"

text \<open>How a rasterization can end other than with the chart drawn.\<close>

datatype render_fault = Thrown js_error | DivisionByZero

definition js_div :: "(real \<Rightarrow> real) \<Rightarrow> real \<Rightarrow> real \<Rightarrow> real option" where
  "js_div fl a b = (if b = 0 then None else Some (fl (a / b)))"

definition Math_round :: "real \<Rightarrow> int" where
  "Math_round x = \<lfloor>x + 1 / 2\<rfloor>"

definition Math_max :: "real list \<Rightarrow> real \<Rightarrow> real" where
  "Math_max vs eps = foldr max vs eps"

text \<open>\<open>Math.round((this.values[i] / this._max) * (ph - 1))\<close>.\<close>

definition barH :: "(real \<Rightarrow> real) \<Rightarrow> real \<Rightarrow> real \<Rightarrow> int \<Rightarrow> int option" where
  "barH fl v mx ph =
     (case js_div fl v mx of
        None \<Rightarrow> None
      | Some q \<Rightarrow> Some (Math_round (fl (q * real_of_int (ph - 1)))))"

text \<open>The width of a bar and of a gap. Both divisors are positive, as \<open>n \<ge> 1\<close>
  where \<open>_render\<close> computes them.\<close>

definition barPx :: "(real \<Rightarrow> real) \<Rightarrow> int \<Rightarrow> int \<Rightarrow> int" where
  "barPx fl totalPx n = max 1 \<lfloor>fl (real_of_int totalPx / real_of_int (n * 2))\<rfloor>"

definition gapPx :: "(real \<Rightarrow> real) \<Rightarrow> int \<Rightarrow> int \<Rightarrow> int" where
  "gapPx fl totalPx n =
     max 0 \<lfloor>fl (real_of_int (totalPx - barPx fl totalPx n * n) / real_of_int (n + 1))\<rfloor>"

text \<open>One round of the loop over the bars, on the pair of \<open>x\<close> and the canvas.\<close>

definition render_bar ::
  "(real \<Rightarrow> real) \<Rightarrow> real list \<Rightarrow> real \<Rightarrow> int \<Rightarrow> int \<Rightarrow> int \<Rightarrow> int
   \<Rightarrow> int \<times> (render_fault + BrailleCanvas) \<Rightarrow> int \<times> (render_fault + BrailleCanvas)" where
  "render_bar fl vs mx ph bp gp i st =
     (case st of (x, r) \<Rightarrow>
        (x + bp + gp,
         (case r of
            Inl f \<Rightarrow> Inl f
          | Inr cv \<Rightarrow>
              (case barH fl (vs ! nat i) mx ph of
                 None \<Rightarrow> Inl DivisionByZero
               | Some bh \<Rightarrow>
                   (let top' = ph - 1 - bh;
                        k = PALETTE ! nat (i mod int (length PALETTE))
                    in case drawBar x (ph - 1) top' bp (Some k) cv of
                         Inl e \<Rightarrow> Inl (Thrown e)
                       | Inr cv' \<Rightarrow> Inr cv')))))"

definition BarChart_render :: "(real \<Rightarrow> real) \<Rightarrow> BarChart \<Rightarrow> render_fault + BarChart" where
  "BarChart_render fl b =
     (if \<not> dirty b then Inr b
      else
        (let b1 = b\<lparr>dirty := False, canvas := clear (canvas b)\<rparr> in
         if length (bar_values b1) = 0 then Inr b1
         else
           (let b2 = b1\<lparr>bc_max := Math_max (bar_values b1) (fl (1 / 1000))\<rparr>;
                pw = pixelWidth (canvas b2);
                ph = pixelHeight (canvas b2);
                n = int (length (bar_values b2));
                totalPx = pw;
                bp = barPx fl totalPx n;
                gp = gapPx fl totalPx n
            in (case for_loop 0 n (render_bar fl (bar_values b2) (bc_max b2) ph bp gp)
                       (gp, Inr (canvas b2)) of
                  (x, Inl f) \<Rightarrow> Inl f
                | (x, Inr cv) \<Rightarrow> Inr (b2\<lparr>canvas := cv\<rparr>)))))"

text \<open>The left pixel column of bar \<open>i\<close>: the value of \<open>x\<close> when round \<open>i\<close> of the
  loop begins.\<close>

definition bar_x :: "(real \<Rightarrow> real) \<Rightarrow> int \<Rightarrow> int \<Rightarrow> int \<Rightarrow> int" where
  "bar_x fl totalPx n i = gapPx fl totalPx n + i * (barPx fl totalPx n + gapPx fl totalPx n)"

text \<open>A chart 12 columns wide and 5 rows high with the values \<open>[0, 0, 0]\<close>, as
  constructed: a canvas of 10 by 2 cells.\<close>

definition example_chart :: BarChart where
  "example_chart =
     \<lparr>bc_width = 12, bc_height = 5, bar_values = [0, 0, 0],
      canvas = \<lparr>cols = 10, rows = 2,
                pixels = replicate 8 (replicate 20 False),
                colors = replicate 8 (replicate 20 None)\<rparr>,
      dirty = True, bc_max = 1\<rparr>"

text \<open>The pixel \<open>(px, py)\<close> is on the canvas.\<close>

definition in_canvas :: "BrailleCanvas \<Rightarrow> int \<Rightarrow> int \<Rightarrow> bool" where
  "in_canvas c px py = (0 \<le> px \<and> px < pixelWidth c \<and> 0 \<le> py \<and> py < pixelHeight c)"

text \<open>A drawing step that ended without an exception, on a well-formed canvas of the
  size of \<open>c0\<close>, whose set pixels are those of \<open>c0\<close> and the pixels of the region \<open>S\<close> that
  are on the canvas.\<close>

definition drawn_result ::
  "BrailleCanvas \<Rightarrow> (int \<Rightarrow> int \<Rightarrow> bool) \<Rightarrow> js_error + BrailleCanvas \<Rightarrow> bool" where
  "drawn_result c0 S r =
     (case r of
        Inl e \<Rightarrow> False
      | Inr c \<Rightarrow> wf_canvas c \<and> pixelHeight c = pixelHeight c0 \<and> pixelWidth c = pixelWidth c0
                 \<and> (\<forall>qx qy. pixel_at c qx qy = (pixel_at c0 qx qy \<or> (S qx qy \<and> in_canvas c0 qx qy))))"

section \<open>Properties\<close>

subsection \<open>JavaScript helpers\<close>

lemma js_slice_take: "0 \<le> c \<Longrightarrow> c \<le> int (length s) \<Longrightarrow> js_slice s 0 c = take (nat c) s"
  by (simp add: js_slice_def js_pos_def Let_def)

lemma js_slice_from_drop: "0 \<le> c \<Longrightarrow> js_slice_from s c = drop (nat c) s"
  by (auto simp: js_slice_from_def js_slice_def js_pos_def Let_def min_def)

lemma js_rem_nonneg: "0 \<le> a \<Longrightarrow> 0 < b \<Longrightarrow> js_rem a b = a mod b"
  by (cases "a = 0") (simp_all add: js_rem_def)

lemma js_rem_range:
  assumes "- 1 \<le> a" and "0 < b"
  shows "- 1 \<le> js_rem a b \<and> js_rem a b \<le> b - 1"
proof (cases "0 \<le> a")
  case True
  then have "js_rem a b = a mod b" using assms(2) by (rule js_rem_nonneg)
  moreover have "0 \<le> a mod b" "a mod b < b" using assms(2) by simp_all
  ultimately show ?thesis by linarith
next
  case False
  with assms(1) have "a = - 1" by simp
  then have "js_rem a b = - (1 mod b)" using assms(2) by (simp add: js_rem_def)
  moreover have "0 \<le> (1::int) mod b" using assms(2) by simp
  moreover have "(1::int) mod b \<le> 1" by (simp add: zmod_le_nonneg_dividend)
  ultimately show ?thesis using assms(2) by linarith
qed

subsection \<open>ScrollState\<close>

text \<open>
  Claim C3, as amended. For every scroll state, every cursor \<open>cursor \<ge> 0\<close> and every
  viewport width \<open>w \<ge> 1\<close>, after \<open>clampHorizontal(cursor, w)\<close> the horizontal
  offset satisfies \<open>x \<ge> 0\<close> and \<open>x \<le> cursor \<le> x + w - 1\<close>.
\<close>

theorem C3_clampHorizontal_visible:
  assumes "0 \<le> cursor" and "1 \<le> w"
  shows "0 \<le> scroll_x (clampHorizontal cursor w s)
       \<and> scroll_x (clampHorizontal cursor w s) \<le> cursor
       \<and> cursor \<le> scroll_x (clampHorizontal cursor w s) + w - 1"
  using assms by (auto simp: clampHorizontal_def Let_def)

text \<open>Claim C3, witness: a fresh scroll state, cursor 7, viewport width 4.\<close>

theorem C3_clampHorizontal_visible_witness:
  "(0::int) \<le> 7 \<and> (1::int) \<le> 4
   \<and> scroll_x (clampHorizontal 7 4 ScrollState_new) = 4
   \<and> 0 \<le> scroll_x (clampHorizontal 7 4 ScrollState_new)
   \<and> scroll_x (clampHorizontal 7 4 ScrollState_new) \<le> 7
   \<and> 7 \<le> scroll_x (clampHorizontal 7 4 ScrollState_new) + 4 - 1"
  using C3_clampHorizontal_visible [of 7 4 ScrollState_new]
  by (simp add: clampHorizontal_def ScrollState_new_def Let_def)

text \<open>
  Claim C3, counterexample to the unrestricted statement. With an empty viewport
  (\<open>w = 0\<close>, an \<open>Input\<close> of width 2) and cursor 1 the offset becomes 2, past the cursor;
  with cursor \<open>-1\<close> the final floor at 0 leaves the offset above the cursor.
\<close>

theorem C3_clampHorizontal_counterexample:
  "\<not> (scroll_x (clampHorizontal 1 0 ScrollState_new) \<le> 1)
   \<and> \<not> (scroll_x (clampHorizontal (-1) 5 ScrollState_new) \<le> -1)"
  by (simp add: clampHorizontal_def ScrollState_new_def Let_def)

subsection \<open>FocusManager\<close>

lemma length_set_current [simp]: "length (focusables (set_current b fm)) = length (focusables fm)"
  by (simp add: set_current_def split: option.splits)

lemma idx_set_current [simp]: "idx (set_current b fm) = idx fm"
  by (simp add: set_current_def split: option.splits)

lemma length_cycle [simp]: "length (focusables (cycle d fm)) = length (focusables fm)"
  by (simp add: cycle_def blurActive_def Let_def)

lemma idx_cycle:
  assumes "0 \<le> idx fm" and "focusables fm \<noteq> []"
  shows "idx (cycle d fm) = (idx fm + direction_value d) mod int (length (focusables fm))"
proof -
  let ?n = "int (length (focusables fm))"
  have n: "0 < ?n" using assms(2) by simp
  have "- 1 \<le> direction_value d" by (cases d) simp_all
  with assms(1) n have "0 \<le> idx fm + direction_value d + ?n" by linarith
  then have "js_rem (idx fm + direction_value d + ?n) ?n = (idx fm + direction_value d + ?n) mod ?n"
    using n by (rule js_rem_nonneg)
  then show ?thesis using n by (simp add: cycle_def blurActive_def Let_def)
qed

lemma length_cycle_pow [simp]:
  "length (focusables ((cycle d ^^ k) fm)) = length (focusables fm)"
  by (induction k) simp_all

lemma idx_cycle_pow:
  assumes "0 \<le> idx fm" and "idx fm < int (length (focusables fm))"
  shows "idx ((cycle d ^^ k) fm)
         = (idx fm + int k * direction_value d) mod int (length (focusables fm))"
proof (induction k)
  case 0
  with assms show ?case by simp
next
  case (Suc k)
  let ?n = "int (length (focusables fm))"
  let ?g = "(cycle d ^^ k) fm"
  have ne: "focusables ?g \<noteq> []"
  proof
    assume "focusables ?g = []"
    then have "length (focusables ?g) = 0" by simp
    then have "length (focusables fm) = 0" by simp
    with assms show False by simp
  qed
  have n: "0 < ?n" using assms by linarith
  have nonneg: "0 \<le> idx ?g" using Suc n by simp
  have "idx ((cycle d ^^ Suc k) fm) = (idx ?g + direction_value d) mod ?n"
    using idx_cycle [OF nonneg ne] by simp
  also have "\<dots> = ((idx fm + int k * direction_value d) mod ?n + direction_value d) mod ?n"
    using Suc by simp
  also have "\<dots> = (idx fm + int k * direction_value d + direction_value d) mod ?n"
    by (rule mod_add_left_eq)
  also have "\<dots> = (idx fm + int (Suc k) * direction_value d) mod ?n"
    by (simp add: algebra_simps)
  finally show ?case .
qed

text \<open>
  Claim C5, as amended. For every FocusManager over \<open>N\<close> focusables whose focus index
  names a focusable (\<open>0 \<le> index < N\<close>), applying \<open>cycle\<close> with the same direction
  \<open>N\<close> times returns the focus index to its original value.
\<close>

theorem C5_cycle_returns:
  assumes "0 \<le> idx fm" and "idx fm < int (length (focusables fm))"
  shows "idx ((cycle d ^^ length (focusables fm)) fm) = idx fm"
  using assms idx_cycle_pow [OF assms, where d = d and k = "length (focusables fm)"] by simp

text \<open>Claim C5, witness: three focusables, index 1, cycling backwards three times.\<close>

theorem C5_cycle_returns_witness:
  "(0::int) \<le> idx (FocusManager_new [False, False, False]\<lparr>idx := 1\<rparr>)
   \<and> idx (FocusManager_new [False, False, False]\<lparr>idx := 1\<rparr>) < int (length [False, False, False])
   \<and> idx ((cycle Backward ^^ 3) (FocusManager_new [False, False, False]\<lparr>idx := 1\<rparr>)) = 1"
  using C5_cycle_returns [of "FocusManager_new [False, False, False]\<lparr>idx := 1\<rparr>" Backward]
  by (simp add: FocusManager_new_def eval_nat_numeral)

text \<open>
  Claim C5, counterexample to the statement for every starting index: from the
  no-focus index \<open>-1\<close> over two focusables, two forward cycles end at index 1.
\<close>

theorem C5_cycle_counterexample:
  "idx (FocusManager_new [False, False]) = -1
   \<and> idx ((cycle Forward ^^ 2) (FocusManager_new [False, False])) = 1"
  by (simp add: FocusManager_new_def cycle_def blurActive_def set_current_def js_index_def
      js_rem_def Let_def numeral_2_eq_2)

text \<open>
  Claim C4 at the input where the code leaves the range \<open>[-1, N-1]\<close>: over an empty
  list of focusables (\<open>N = 0\<close>), \<open>focusAt(0)\<close> sets the index to 0.
\<close>

theorem C4_focusAt_empty:
  "idx (focus_run (FocusManager_new []) [FocusAt 0]) = 0
   \<and> \<not> focus_index_ok (focus_run (FocusManager_new []) [FocusAt 0])"
  by (simp add: focus_run_def focusAt_def FocusManager_new_def blurActive_def set_current_def
      js_index_def focus_index_ok_def Let_def)

text \<open>Over a non-empty list of focusables every operation keeps the index in
  \<open>[-1, N-1]\<close> and the list at its length.\<close>

lemma focus_step_index_ok:
  assumes "focusables fm \<noteq> []" and "focus_index_ok fm"
  shows "focus_index_ok (focus_step fm f) \<and> length (focusables (focus_step fm f)) = length (focusables fm)"
proof (cases f)
  case (FocusAt i)
  from assms(1) have "0 < int (length (focusables fm))" by simp
  with FocusAt show ?thesis
    by (auto simp: focusAt_def blurActive_def focus_index_ok_def Let_def)
next
  case (Cycle d)
  let ?n = "int (length (focusables fm))"
  from assms(1) have n: "0 < ?n" by simp
  have "- 1 \<le> direction_value d" by (cases d) simp_all
  with assms(2) n have "- 1 \<le> idx fm + direction_value d + ?n"
    unfolding focus_index_ok_def by linarith
  then have "- 1 \<le> js_rem (idx fm + direction_value d + ?n) ?n
           \<and> js_rem (idx fm + direction_value d + ?n) ?n \<le> ?n - 1"
    using n by (rule js_rem_range)
  with Cycle n show ?thesis
    by (simp add: cycle_def blurActive_def focus_index_ok_def Let_def)
next
  case Clear
  with assms show ?thesis
    by (simp add: clear_focus_def blurActive_def focus_index_ok_def)
next
  case InitFirst
  from assms(1) have "0 < int (length (focusables fm))" by simp
  with InitFirst assms show ?thesis
    by (auto simp: initFirst_def focusAt_def blurActive_def focus_index_ok_def Let_def)
qed

lemma focus_run_index_ok:
  assumes "focusables fm \<noteq> []" and "focus_index_ok fm"
  shows "focus_index_ok (focus_run fm fs)"
proof -
  have "focus_index_ok (foldl focus_step fm fs)
        \<and> length (focusables (foldl focus_step fm fs)) = length (focusables fm)"
    using assms
  proof (induction fs arbitrary: fm)
    case Nil
    then show ?case by simp
  next
    case (Cons f fs)
    from focus_step_index_ok [OF Cons.prems]
    have ok: "focus_index_ok (focus_step fm f)"
      and len: "length (focusables (focus_step fm f)) = length (focusables fm)" by simp_all
    from len Cons.prems(1) have "focusables (focus_step fm f) \<noteq> []" by auto
    from Cons.IH [OF this ok] len show ?case by simp
  qed
  then show ?thesis by (simp add: focus_run_def)
qed


subsection \<open>Textarea\<close>

text \<open>Inside the array, reads, writes and splices are the list operations.\<close>

lemma js_index_in [simp]: "0 \<le> i \<Longrightarrow> i < int (length xs) \<Longrightarrow> js_index xs i = Some (xs ! nat i)"
  by (simp add: js_index_def)

lemma js_set_in [simp]: "0 \<le> i \<Longrightarrow> i < int (length xs) \<Longrightarrow> js_set h xs i v = xs[nat i := v]"
  by (simp add: js_set_def)

lemma js_splice_insert:
  "0 \<le> i \<Longrightarrow> i \<le> int (length xs) \<Longrightarrow> js_splice xs i 0 ys = take (nat i) xs @ ys @ drop (nat i) xs"
  by (simp add: js_splice_def js_pos_def Let_def)

lemma js_splice_delete1:
  "0 \<le> i \<Longrightarrow> i < int (length xs) \<Longrightarrow> js_splice xs i 1 [] = take (nat i) xs @ drop (Suc (nat i)) xs"
  by (simp add: js_splice_def js_pos_def Let_def nat_add_distrib)

text \<open>Each cursor move and each edit keeps the cursor invariant.\<close>

lemma ta_inv_clampScroll [simp]: "ta_inv (Textarea_clampScroll t) = ta_inv t"
  by (simp add: Textarea_clampScroll_def ta_inv_def currentLine_def line_at_def Let_def)

lemma ta_inv_line:
  assumes "ta_inv t"
  shows "currentLine t = lines t ! nat (cursorRow t)"
  using assms by (simp add: ta_inv_def currentLine_def line_at_def)

lemma ta_inv_moveCursorLeft: "ta_inv t \<Longrightarrow> ta_inv (moveCursorLeft t)"
  by (auto simp: ta_inv_def moveCursorLeft_def currentLine_def line_at_def Let_def)

lemma ta_inv_moveCursorRight: "ta_inv t \<Longrightarrow> ta_inv (moveCursorRight t)"
  by (auto simp: ta_inv_def moveCursorRight_def currentLine_def line_at_def Let_def)

lemma ta_inv_moveCursorUp: "ta_inv t \<Longrightarrow> ta_inv (moveCursorUp t)"
  by (auto simp: ta_inv_def moveCursorUp_def currentLine_def line_at_def Let_def)

lemma ta_inv_moveCursorDown: "ta_inv t \<Longrightarrow> ta_inv (moveCursorDown t)"
  by (auto simp: ta_inv_def moveCursorDown_def currentLine_def line_at_def Let_def)

lemma ta_inv_home_ctrl: "ta_inv t \<Longrightarrow> ta_inv (t\<lparr>cursorRow := 0, cursorCol := 0\<rparr>)"
  by (auto simp: ta_inv_def currentLine_def line_at_def)

lemma ta_inv_home: "ta_inv t \<Longrightarrow> ta_inv (t\<lparr>cursorCol := 0\<rparr>)"
  by (auto simp: ta_inv_def currentLine_def line_at_def)

lemma ta_inv_end_ctrl:
  "ta_inv t \<Longrightarrow>
   ta_inv (t\<lparr>cursorRow := int (length (lines t)) - 1,
             cursorCol := int (length (currentLine (t\<lparr>cursorRow := int (length (lines t)) - 1\<rparr>)))\<rparr>)"
  by (auto simp: ta_inv_def currentLine_def line_at_def)

lemma ta_inv_end: "ta_inv t \<Longrightarrow> ta_inv (t\<lparr>cursorCol := int (length (currentLine t))\<rparr>)"
  by (auto simp: ta_inv_def currentLine_def line_at_def)

lemma insertNewline_eq:
  assumes "ta_inv t"
  shows "insertNewline t =
     t\<lparr>lines := take (nat (cursorRow t)) (lines t)
                 @ [take (nat (cursorCol t)) (currentLine t), drop (nat (cursorCol t)) (currentLine t)]
                 @ drop (Suc (nat (cursorRow t))) (lines t),
       cursorRow := cursorRow t + 1, cursorCol := 0\<rparr>"
proof -
  let ?r = "nat (cursorRow t)" and ?c = "nat (cursorCol t)" and ?l = "currentLine t"
  from assms have r: "0 \<le> cursorRow t" "cursorRow t < int (length (lines t))"
    and c: "0 \<le> cursorCol t" "cursorCol t \<le> int (length ?l)"
    by (simp_all add: ta_inv_def)
  have s1: "js_slice ?l 0 (cursorCol t) = take ?c ?l" using c by (rule js_slice_take)
  have s2: "js_slice_from ?l (cursorCol t) = drop ?c ?l" using c(1) by (rule js_slice_from_drop)
  have "js_splice ((lines t)[?r := take ?c ?l]) (cursorRow t + 1) 0 [drop ?c ?l]
        = take (nat (cursorRow t + 1)) ((lines t)[?r := take ?c ?l]) @ [drop ?c ?l]
          @ drop (nat (cursorRow t + 1)) ((lines t)[?r := take ?c ?l])"
    using r by (intro js_splice_insert) simp_all
  also have "nat (cursorRow t + 1) = Suc ?r" using r by simp
  also have "take (Suc ?r) ((lines t)[?r := take ?c ?l]) = take ?r (lines t) @ [take ?c ?l]"
    using r by (simp add: take_Suc_conv_app_nth)
  also have "drop (Suc ?r) ((lines t)[?r := take ?c ?l]) = drop (Suc ?r) (lines t)"
    by simp
  finally show ?thesis
    using r by (simp add: insertNewline_def set_line_def s1 s2 Let_def)
qed

lemma ta_inv_insertNewline: "ta_inv t \<Longrightarrow> ta_inv (insertNewline t)"
  by (auto simp: insertNewline_eq ta_inv_def currentLine_def line_at_def nth_append nat_add_distrib)

lemma ta_inv_insertChar:
  assumes "ta_inv t" and "length ch = 1"
  shows "ta_inv (insertChar ch t)"
proof -
  let ?r = "nat (cursorRow t)" and ?c = "nat (cursorCol t)" and ?l = "currentLine t"
  from assms have r: "0 \<le> cursorRow t" "cursorRow t < int (length (lines t))"
    and c: "0 \<le> cursorCol t" "cursorCol t \<le> int (length ?l)"
    by (simp_all add: ta_inv_def)
  have s1: "js_slice ?l 0 (cursorCol t) = take ?c ?l" using c by (rule js_slice_take)
  have s2: "js_slice_from ?l (cursorCol t) = drop ?c ?l" using c(1) by (rule js_slice_from_drop)
  have l: "?l = lines t ! ?r" using assms(1) by (rule ta_inv_line)
  show ?thesis
    using r c assms(2)
    by (auto simp: insertChar_def set_line_def s1 [unfolded l] s2 [unfolded l] Let_def ta_inv_def
        currentLine_def line_at_def)
qed

lemma ta_inv_deleteBackward:
  assumes "ta_inv t"
  shows "ta_inv (deleteBackward t)"
proof -
  let ?r = "nat (cursorRow t)" and ?c = "nat (cursorCol t)" and ?l = "currentLine t"
  from assms have r: "0 \<le> cursorRow t" "cursorRow t < int (length (lines t))"
    and c: "0 \<le> cursorCol t" "cursorCol t \<le> int (length ?l)"
    by (simp_all add: ta_inv_def)
  have l: "?l = lines t ! ?r" using assms by (rule ta_inv_line)
  show ?thesis
  proof (cases "cursorCol t > 0")
    case True
    have s1: "js_slice ?l 0 (cursorCol t - 1) = take (?c - 1) ?l"
      using c True by (simp add: js_slice_take nat_diff_distrib)
    have s2: "js_slice_from ?l (cursorCol t) = drop ?c ?l" using c(1) by (rule js_slice_from_drop)
    show ?thesis
      using r c True
      by (auto simp: deleteBackward_def set_line_def s1 [unfolded l] s2 [unfolded l] Let_def
          ta_inv_def currentLine_def line_at_def)
  next
    case False
    note col0 = False
    show ?thesis
    proof (cases "cursorRow t > 0")
      case True
      let ?p = "lines t ! (?r - 1)"
      have p: "line_at t (cursorRow t - 1) = ?p"
        using r True by (simp add: line_at_def nat_diff_distrib)
      have cur: "currentLine (t\<lparr>cursorCol := int (length ?p)\<rparr>) = lines t ! ?r"
        using r by (simp add: currentLine_def line_at_def)
      have sp: "js_splice ((lines t)[?r - 1 := ?p @ lines t ! ?r]) (cursorRow t) 1 []
            = take ?r ((lines t)[?r - 1 := ?p @ lines t ! ?r])
              @ drop (Suc ?r) ((lines t)[?r - 1 := ?p @ lines t ! ?r])"
        using r by (intro js_splice_delete1) simp_all
      have eq: "deleteBackward t =
          t\<lparr>cursorCol := int (length ?p),
            lines := take ?r ((lines t)[?r - 1 := ?p @ lines t ! ?r]) @ drop (Suc ?r) (lines t),
            cursorRow := cursorRow t - 1\<rparr>"
        using r True col0 p cur sp
        by (simp add: deleteBackward_def set_line_def Let_def nat_diff_distrib)
      have rpos: "0 < ?r" "?r < length (lines t)" using r True by simp_all
      then have nth: "(take ?r ((lines t)[?r - 1 := ?p @ lines t ! ?r]) @ drop (Suc ?r) (lines t)) ! (?r - 1)
           = ?p @ lines t ! ?r"
        by (simp add: nth_append)
      show ?thesis
        using r True rpos nth
        by (auto simp: eq ta_inv_def currentLine_def line_at_def nat_diff_distrib)
    next
      case False
      with col0 assms show ?thesis by (simp add: deleteBackward_def)
    qed
  qed
qed

lemma ta_inv_deleteForward:
  assumes "ta_inv t"
  shows "ta_inv (deleteForward t)"
proof -
  let ?r = "nat (cursorRow t)" and ?c = "nat (cursorCol t)" and ?l = "currentLine t"
  from assms have r: "0 \<le> cursorRow t" "cursorRow t < int (length (lines t))"
    and c: "0 \<le> cursorCol t" "cursorCol t \<le> int (length ?l)"
    by (simp_all add: ta_inv_def)
  have l: "?l = lines t ! ?r" using assms by (rule ta_inv_line)
  show ?thesis
  proof (cases "cursorCol t < int (length ?l)")
    case True
    have s1: "js_slice ?l 0 (cursorCol t) = take ?c ?l" using c by (rule js_slice_take)
    have s2: "js_slice_from ?l (cursorCol t + 1) = drop (Suc ?c) ?l"
      using c(1) by (simp add: js_slice_from_drop nat_add_distrib)
    show ?thesis
      using r c True
      by (auto simp: deleteForward_def set_line_def s1 [unfolded l] s2 [unfolded l] Let_def
          ta_inv_def currentLine_def line_at_def)
  next
    case False
    note atend = False
    show ?thesis
    proof (cases "cursorRow t < int (length (lines t)) - 1")
      case True
      let ?nx = "lines t ! Suc ?r"
      have nx: "line_at t (cursorRow t + 1) = ?nx"
        using r True by (simp add: line_at_def nat_add_distrib)
      have sp: "js_splice ((lines t)[?r := ?l @ ?nx]) (cursorRow t + 1) 1 []
            = take (nat (cursorRow t + 1)) ((lines t)[?r := ?l @ ?nx])
              @ drop (Suc (nat (cursorRow t + 1))) ((lines t)[?r := ?l @ ?nx])"
        using r True by (intro js_splice_delete1) simp_all
      have eq: "deleteForward t =
          t\<lparr>lines := take (Suc ?r) ((lines t)[?r := ?l @ ?nx]) @ drop (Suc (Suc ?r)) (lines t)\<rparr>"
        using r True atend nx sp
        by (simp add: deleteForward_def set_line_def Let_def nat_add_distrib)
      have "?r < length (lines t)" using r by simp
      then have nth: "(take (Suc ?r) ((lines t)[?r := ?l @ ?nx]) @ drop (Suc (Suc ?r)) (lines t)) ! ?r
           = ?l @ ?nx"
        by (simp add: nth_append)
      show ?thesis
        using r c True nth
        by (auto simp: eq ta_inv_def currentLine_def line_at_def)
    next
      case False
      with atend assms show ?thesis by (simp add: deleteForward_def Let_def)
    qed
  qed
qed

lemma single_char_text: "single_char k \<Longrightarrow> length (key_text k) = 1"
  by (simp add: single_char_def key_text_def split: option.splits)

lemma ta_inv_handleKey:
  assumes "ta_inv t"
  shows "ta_inv (snd (Textarea_handleKey k t))"
  using assms
  by (simp add: Textarea_handleKey_def Let_def ta_inv_moveCursorLeft ta_inv_moveCursorRight
      ta_inv_moveCursorUp ta_inv_moveCursorDown ta_inv_home ta_inv_home_ctrl ta_inv_end
      ta_inv_end_ctrl ta_inv_deleteBackward ta_inv_deleteForward ta_inv_insertNewline
      ta_inv_insertChar single_char_text)

lemma js_split_nonempty: "js_split sep s \<noteq> []"
  by (induction s) (auto split: list.splits)

lemma ta_inv_new: "ta_inv (Textarea_new w h v)"
  by (simp add: Textarea_new_def ta_inv_def initial_lines_def js_split_nonempty currentLine_def
      line_at_def js_index_def)

lemma ta_inv_handleKeys: "ta_inv t \<Longrightarrow> ta_inv (Textarea_handleKeys t ks)"
  unfolding Textarea_handleKeys_def
  by (induction ks arbitrary: t) (simp_all add: ta_inv_handleKey)

text \<open>
  Claim C1. For every Textarea as constructed and every sequence of key events
  delivered to it through \<open>handleKey\<close>, the line list is non-empty, the cursor row is
  in \<open>[0, number of lines)\<close>, and the cursor column is in \<open>[0, length of the line at the
  cursor row]\<close>.
\<close>

theorem C1_textarea_invariant:
  "lines (Textarea_handleKeys (Textarea_new w h v) ks) \<noteq> []
   \<and> 0 \<le> cursorRow (Textarea_handleKeys (Textarea_new w h v) ks)
   \<and> cursorRow (Textarea_handleKeys (Textarea_new w h v) ks)
       < int (length (lines (Textarea_handleKeys (Textarea_new w h v) ks)))
   \<and> 0 \<le> cursorCol (Textarea_handleKeys (Textarea_new w h v) ks)
   \<and> cursorCol (Textarea_handleKeys (Textarea_new w h v) ks)
       \<le> int (length (lines (Textarea_handleKeys (Textarea_new w h v) ks)
                         ! nat (cursorRow (Textarea_handleKeys (Textarea_new w h v) ks))))"
proof -
  have "ta_inv (Textarea_handleKeys (Textarea_new w h v) ks)"
    by (rule ta_inv_handleKeys) (rule ta_inv_new)
  then show ?thesis
    unfolding ta_inv_def currentLine_def line_at_def by (auto simp: js_index_def)
qed

text \<open>
  Claim C7. For every Textarea whose cursor \<open>(row, col)\<close> satisfies the cursor
  invariant, handling the Return key replaces the current line \<open>line\<close> by
  \<open>line[0:col]\<close>, inserts \<open>line[col:]\<close> as a new line immediately after it, and moves the
  cursor to \<open>(row + 1, 0)\<close>; the key is reported as consumed.
\<close>

theorem C7_return_splits_line:
  assumes "ta_inv t" and "name k = Some ''return''"
  shows "fst (Textarea_handleKey k t)
       \<and> lines (snd (Textarea_handleKey k t))
           = take (nat (cursorRow t)) (lines t)
             @ [take (nat (cursorCol t)) (lines t ! nat (cursorRow t)),
                drop (nat (cursorCol t)) (lines t ! nat (cursorRow t))]
             @ drop (Suc (nat (cursorRow t))) (lines t)
       \<and> cursorRow (snd (Textarea_handleKey k t)) = cursorRow t + 1
       \<and> cursorCol (snd (Textarea_handleKey k t)) = 0"
proof -
  have hk: "Textarea_handleKey k t = (True, Textarea_clampScroll (insertNewline t))"
    using assms(2) by (simp add: Textarea_handleKey_def)
  have cs: "lines (Textarea_clampScroll u) = lines u"
    "cursorRow (Textarea_clampScroll u) = cursorRow u"
    "cursorCol (Textarea_clampScroll u) = cursorCol u" for u
    by (simp_all add: Textarea_clampScroll_def Let_def)
  show ?thesis
    by (simp add: hk cs insertNewline_eq [OF assms(1)] ta_inv_line [OF assms(1)])
qed

text \<open>Claim C7, witness: the lines \<open>abc\<close>, \<open>d\<close> with the cursor at \<open>(0, 1)\<close> become
  \<open>a\<close>, \<open>bc\<close>, \<open>d\<close> with the cursor in row 1.\<close>

theorem C7_return_splits_line_witness:
  "ta_inv \<lparr>ta_width = 20, ta_height = 5, lines = [[0x61, 0x62, 0x63], [0x64]], cursorRow = 0,
           cursorCol = 1, ta_scroll = ScrollState_new, ta_focused = True\<rparr>
   \<and> lines (snd (Textarea_handleKey
         \<lparr>name = Some ''return'', sequence = Some [0x0D], ctrl = False, meta = False,
          shift = False\<rparr>
         \<lparr>ta_width = 20, ta_height = 5, lines = [[0x61, 0x62, 0x63], [0x64]], cursorRow = 0,
          cursorCol = 1, ta_scroll = ScrollState_new, ta_focused = True\<rparr>))
       = [[0x61], [0x62, 0x63], [0x64]]
   \<and> cursorRow (snd (Textarea_handleKey
         \<lparr>name = Some ''return'', sequence = Some [0x0D], ctrl = False, meta = False,
          shift = False\<rparr>
         \<lparr>ta_width = 20, ta_height = 5, lines = [[0x61, 0x62, 0x63], [0x64]], cursorRow = 0,
          cursorCol = 1, ta_scroll = ScrollState_new, ta_focused = True\<rparr>)) = 1"
  using C7_return_splits_line
    [of "\<lparr>ta_width = 20, ta_height = 5, lines = [[0x61, 0x62, 0x63], [0x64]], cursorRow = 0,
          cursorCol = 1, ta_scroll = ScrollState_new, ta_focused = True\<rparr>"
        "\<lparr>name = Some ''return'', sequence = Some [0x0D], ctrl = False, meta = False,
          shift = False\<rparr>"]
  by (simp add: ta_inv_def currentLine_def line_at_def js_index_def)

subsection \<open>Input\<close>

lemma Input_backspace_empty:
  assumes "in_value e = []" and "in_cursor e = 0" and "name b = Some ''backspace''"
  shows "in_value (snd (Input_handleKey b e)) = [] \<and> in_cursor (snd (Input_handleKey b e)) = 0"
  using assms by (simp add: Input_handleKey_def Input_clampScroll_def Let_def)

lemma Input_backspaces_empty:
  assumes "in_value e = []" and "in_cursor e = 0" and "\<forall>b\<in>set bs. name b = Some ''backspace''"
  shows "in_value (Input_handleKeys e bs) = [] \<and> in_cursor (Input_handleKeys e bs) = 0"
  using assms unfolding Input_handleKeys_def
proof (induction bs arbitrary: e)
  case Nil
  then show ?case by simp
next
  case (Cons b bs)
  from Cons.prems have b: "name b = Some ''backspace''" by simp
  from Input_backspace_empty [OF Cons.prems(1,2) b] Cons.prems(3) Cons.IH
  show ?case by simp
qed

text \<open>
  Claim C6. For every Input with value \<open>v\<close> and cursor \<open>c\<close>, \<open>0 \<le> c \<le> length v\<close>,
  handling a printable single-character key \<open>ch\<close> yields the value
  \<open>v[0:c] + ch + v[c:]\<close> and the cursor \<open>c + 1\<close>; and for an Input with empty value
  (and cursor 0), handling Backspace any number of times leaves the value empty and the
  cursor at 0.
\<close>

theorem C6_input_insert_and_backspace:
  assumes "0 \<le> c" and "c \<le> int (length v)"
    and "in_value i = v" and "in_cursor i = c" and "printable_key k ch"
    and "in_value e = []" and "in_cursor e = 0"
    and "\<forall>b\<in>set bs. name b = Some ''backspace''"
  shows "fst (Input_handleKey k i)
       \<and> in_value (snd (Input_handleKey k i)) = take (nat c) v @ [ch] @ drop (nat c) v
       \<and> in_cursor (snd (Input_handleKey k i)) = c + 1
       \<and> in_value (Input_handleKeys e bs) = []
       \<and> in_cursor (Input_handleKeys e bs) = 0"
proof -
  from assms(5) have sc: "single_char k" and kt: "key_text k = [ch]"
    and nm: "name k \<noteq> Some ''left''" "name k \<noteq> Some ''right''" "name k \<noteq> Some ''home''"
      "name k \<noteq> Some ''end''" "name k \<noteq> Some ''backspace''" "name k \<noteq> Some ''delete''"
      "name k \<noteq> Some ''return''" "name k \<noteq> Some ''escape''" "name k \<noteq> Some ''tab''"
    by (auto simp: printable_key_def single_char_def key_text_def)
  have s1: "js_slice v 0 c = take (nat c) v" using assms(1,2) by (rule js_slice_take)
  have s2: "js_slice_from v c = drop (nat c) v" using assms(1) by (rule js_slice_from_drop)
  have "Input_handleKey k i
        = (True, Input_clampScroll (i\<lparr>in_value := take (nat c) v @ [ch] @ drop (nat c) v,
                                      in_cursor := c + 1\<rparr>))"
    using sc nm by (simp add: Input_handleKey_def Let_def assms(3,4) kt s1 s2)
  then show ?thesis
    using Input_backspaces_empty [OF assms(6,7,8)] by (simp add: Input_clampScroll_def)
qed

text \<open>Claim C6, witness: typing \<open>a\<close> into \<open>hi\<close> at cursor 1 gives \<open>hai\<close> and cursor 2;
  three Backspace keys on a fresh Input change nothing.\<close>

theorem C6_input_insert_and_backspace_witness:
  "(0::int) \<le> 1 \<and> (1::int) \<le> int (length [0x68, 0x69 :: 16 word])
   \<and> printable_key \<lparr>name = Some ''a'', sequence = Some [0x61], ctrl = False, meta = False,
                      shift = False\<rparr> 0x61
   \<and> in_value (snd (Input_handleKey
         \<lparr>name = Some ''a'', sequence = Some [0x61], ctrl = False, meta = False, shift = False\<rparr>
         ((Input_new 10)\<lparr>in_value := [0x68, 0x69], in_cursor := 1\<rparr>))) = [0x68, 0x61, 0x69]
   \<and> in_cursor (snd (Input_handleKey
         \<lparr>name = Some ''a'', sequence = Some [0x61], ctrl = False, meta = False, shift = False\<rparr>
         ((Input_new 10)\<lparr>in_value := [0x68, 0x69], in_cursor := 1\<rparr>))) = 2
   \<and> in_value (Input_handleKeys (Input_new 10)
         (replicate 3 \<lparr>name = Some ''backspace'', sequence = Some [0x7F], ctrl = False,
                        meta = False, shift = False\<rparr>)) = []
   \<and> in_cursor (Input_handleKeys (Input_new 10)
         (replicate 3 \<lparr>name = Some ''backspace'', sequence = Some [0x7F], ctrl = False,
                        meta = False, shift = False\<rparr>)) = 0"
  using C6_input_insert_and_backspace
    [of 1 "[0x68, 0x69]" "(Input_new 10)\<lparr>in_value := [0x68, 0x69], in_cursor := 1\<rparr>"
        "\<lparr>name = Some ''a'', sequence = Some [0x61], ctrl = False, meta = False, shift = False\<rparr>"
        "0x61" "Input_new 10"
        "replicate 3 \<lparr>name = Some ''backspace'', sequence = Some [0x7F], ctrl = False,
                        meta = False, shift = False\<rparr>"]
  by (simp add: printable_key_def Input_new_def)


subsection \<open>Container\<close>

text \<open>The loop of \<open>_scrollToFocused\<close> stops at the first child that is the target,
  with the row counts of the children before it summed up.\<close>

lemma scroll_loop_reaches:
  assumes "\<exists>ch\<in>set cs. wid ch = wid target"
  shows "scroll_loop c target off cs
         = scroll_to_line c target
             (off + sum_list (map lineCount (takeWhile (\<lambda>ch. wid ch \<noteq> wid target) cs)))"
  using assms
proof (induction cs arbitrary: off)
  case Nil
  then show ?case by simp
next
  case (Cons ch cs)
  show ?case
  proof (cases "wid ch = wid target")
    case True
    then show ?thesis by simp
  next
    case False
    with Cons.prems have "\<exists>ch\<in>set cs. wid ch = wid target" by simp
    from Cons.IH [OF this] False show ?thesis by (simp add: add.assoc)
  qed
qed

lemma current_in_children:
  assumes "current c = Some target"
  shows "target \<in> set (children c)"
proof -
  let ?fs = "filter isFocusable (children c)"
  from assms have "0 \<le> idx (focus c)" "idx (focus c) < int (length ?fs)"
    and "target = ?fs ! nat (idx (focus c))"
    by (auto simp: current_def js_index_def split: if_splits)
  then have "target \<in> set ?fs" by (metis nth_mem nat_less_iff)
  then show ?thesis by simp
qed

lemma scrollToFocused_eq:
  assumes "current c = Some target"
  shows "scrollToFocused c = scroll_to_line c target (offset_of c target)"
proof -
  from current_in_children [OF assms] have "\<exists>ch\<in>set (children c). wid ch = wid target"
    by blast
  from scroll_loop_reaches [OF this, of c 0] assms show ?thesis
    by (simp add: scrollToFocused_def offset_of_def)
qed

text \<open>
  Claim C2, as amended. For a panel with viewport height 5 whose focused child has
  cumulative row offset 10 and active-line hint 0, whose viewport previously lay wholly
  above the child (\<open>scrollY + 5 \<le> 10\<close>) and whose content is tall enough to scroll
  that far (\<open>maxScrollY \<ge> 6\<close>), the auto-scroll-to-focused step sets \<open>scrollY\<close> to
  exactly 6.
\<close>

theorem C2_scroll_down_to_focused:
  assumes "ih c = 5" and "current c = Some target" and "offset_of c target = 10"
    and "hint_of target = 0"
    and "scroll_y (scroll c) + 5 \<le> 10"
    and "6 \<le> maxScrollY c"
  shows "scroll_y (scroll (scrollToFocused c)) = 6"
  using assms(1,3-6)
  by (simp add: scrollToFocused_eq [OF assms(2)] scroll_to_line_def setY_def Let_def)

lemma example_panel_facts:
  "ih (example_panel y) = 5"
  "current (example_panel y) = Some example_input"
  "offset_of (example_panel y) example_input = 10"
  "hint_of example_input = 0"
  "maxScrollY (example_panel y) = 16"
  "scroll_y (scroll (example_panel y)) = y"
  by (simp_all add: example_panel_def example_children_def example_input_def Container_new_def ih_def current_def
      js_index_def offset_of_def hint_of_def maxScrollY_def totalLines_def)

text \<open>Claim C2, witness: the example panel of twenty-one rows, scrolled to the top.\<close>

theorem C2_scroll_down_to_focused_witness:
  "ih (example_panel 0) = 5 \<and> current (example_panel 0) = Some example_input
   \<and> offset_of (example_panel 0) example_input = 10
   \<and> hint_of example_input = 0
   \<and> scroll_y (scroll (example_panel 0)) + 5 \<le> 10
   \<and> 6 \<le> maxScrollY (example_panel 0)
   \<and> scroll_y (scroll (scrollToFocused (example_panel 0))) = 6"
  using C2_scroll_down_to_focused [of "example_panel 0" example_input]
  by (simp add: example_panel_facts)

lemma example_short_panel_facts:
  "ih example_short_panel = 5"
  "current example_short_panel = Some example_radio"
  "offset_of example_short_panel example_radio = 10"
  "hint_of example_radio = 0"
  "maxScrollY example_short_panel = 5"
  "scroll_y (scroll example_short_panel) = 0"
  by (simp_all add: example_short_panel_def example_radio_def Container_new_def ih_def
      current_def js_index_def offset_of_def hint_of_def maxScrollY_def totalLines_def
      ScrollState_new_def)

text \<open>
  Claim C2, counterexamples. When the target line lies above the viewport (the panel
  scrolled to row 12), the step scrolls up to the child's own offset, 10, not 6. And
  when the viewport lies above the child but the content has ten rows only
  (\<open>maxScrollY = 5\<close>), the step stops at 5.
\<close>

theorem C2_scroll_counterexample:
  "ih (example_panel 12) = 5 \<and> current (example_panel 12) = Some example_input
   \<and> offset_of (example_panel 12) example_input = 10
   \<and> hint_of example_input = 0
   \<and> 10 < scroll_y (scroll (example_panel 12))
   \<and> scroll_y (scroll (scrollToFocused (example_panel 12))) = 10
   \<and> scroll_y (scroll (scrollToFocused (example_panel 12))) \<noteq> 6
   \<and> ih example_short_panel = 5 \<and> current example_short_panel = Some example_radio
   \<and> offset_of example_short_panel example_radio = 10
   \<and> hint_of example_radio = 0
   \<and> scroll_y (scroll example_short_panel) + 5 \<le> 10
   \<and> scroll_y (scroll (scrollToFocused example_short_panel)) = 5
   \<and> scroll_y (scroll (scrollToFocused example_short_panel)) \<noteq> 6"
  by (simp add: example_panel_facts example_short_panel_facts
      scrollToFocused_eq [of "example_panel 12" example_input]
      scrollToFocused_eq [of example_short_panel example_radio]
      scroll_to_line_def setY_def Let_def)



subsection \<open>BrailleCanvas\<close>

text \<open>The two loops of \<open>getCell\<close> visit the eight sub-pixels in the order of
  \<open>cell_scan\<close>.\<close>

lemma for_loop_step: "i < hi \<Longrightarrow> for_loop i hi body s = for_loop (i + 1) hi body (body i s)"
  by (subst for_loop.simps) simp

lemma for_loop_done: "\<not> i < hi \<Longrightarrow> for_loop i hi body s = s"
  by (subst for_loop.simps) simp

lemma getCell_loop:
  "for_loop 0 4 (\<lambda>r. for_loop 0 2 (\<lambda>cc. getCell_step c col row r cc)) st
   = fold (\<lambda>p. getCell_step c col row (fst p) (snd p)) cell_scan st"
  by (simp add: for_loop_step for_loop_done cell_scan_def)

lemma getCell_step_eq:
  "getCell_step c col row (fst p) (snd p) (b, k, f)
   = (b OR sub_bit c col row p,
      if sub_pixel c col row p \<and> \<not> f then sub_color c col row p else k,
      f \<or> sub_pixel c col row p)"
  by (simp add: getCell_step_def sub_bit_def sub_pixel_def sub_color_def Let_def)

lemma fold_getCell_step:
  "fold (\<lambda>p. getCell_step c col row (fst p) (snd p)) ps (b, k, f)
   = (fold (\<lambda>p a. a OR sub_bit c col row p) ps b,
      if f then k
      else (case find (sub_pixel c col row) ps of None \<Rightarrow> k | Some p \<Rightarrow> sub_color c col row p),
      f \<or> (\<exists>p\<in>set ps. sub_pixel c col row p))"
proof (induction ps arbitrary: b k f)
  case Nil
  then show ?case by simp
next
  case (Cons p ps)
  show ?case by (simp add: getCell_step_eq Cons.IH)
qed

lemma getCell_eq:
  "getCell col row c =
     \<lparr>cell_ch = of_nat (0x2800 + fold (\<lambda>p a. a OR sub_bit c col row p) cell_scan 0),
      cell_color = (case find (sub_pixel c col row) cell_scan of
                      None \<Rightarrow> ''gray'' | Some p \<Rightarrow> sub_color c col row p)\<rparr>"
  by (simp add: getCell_def getCell_loop fold_getCell_step)

text \<open>A write leaves every other position of the array as it reads.\<close>

lemma js_set_elsewhere:
  assumes "j \<noteq> i"
  shows "(case js_index (js_set h xs i v) j of None \<Rightarrow> h | Some x \<Rightarrow> x)
         = (case js_index xs j of None \<Rightarrow> h | Some x \<Rightarrow> x)"
proof (cases "i < 0")
  case True
  then show ?thesis by (simp add: js_set_def)
next
  case False
  note i0 = False
  show ?thesis
  proof (cases "i < int (length xs)")
    case True
    with i0 assms show ?thesis by (auto simp: js_set_def js_index_def)
  next
    case False
    with i0 assms show ?thesis
      by (auto simp: js_set_def js_index_def nth_append)
  qed
qed

lemma color_case:
  "(case r of None \<Rightarrow> w | Some None \<Rightarrow> w | Some (Some k) \<Rightarrow> k)
   = (case (case r of None \<Rightarrow> None | Some x \<Rightarrow> x) of None \<Rightarrow> w | Some k \<Rightarrow> k)"
  by (simp split: option.splits)

lemma setPixel_elsewhere:
  assumes "setPixel px py k c = Inr c'" and "qx \<noteq> px \<or> qy \<noteq> py"
  shows "pixel_at c' qx qy = pixel_at c qx qy \<and> color_at c' qx qy = color_at c qx qy"
proof (cases "px < 0 \<or> px \<ge> pixelWidth c \<or> py < 0 \<or> py \<ge> pixelHeight c")
  case True
  with assms(1) have "c' = c" by (simp add: setPixel_def)
  then show ?thesis by simp
next
  case False
  with assms(1) obtain prow crow where prow: "js_index (pixels c) py = Some prow"
    and crow: "js_index (colors c) py = Some crow"
    and c': "c' = c\<lparr>pixels := (pixels c)[nat py := js_set False prow px True],
                     colors := (colors c)[nat py := js_set None crow px k]\<rparr>"
    by (auto simp: setPixel_def split: option.splits)
  from prow have pin: "0 \<le> py" "py < int (length (pixels c))"
    by (simp_all add: js_index_def split: if_splits)
  from crow have cin: "py < int (length (colors c))"
    by (simp_all add: js_index_def split: if_splits)
  have prow_eq: "prow = pixels c ! nat py" and crow_eq: "crow = colors c ! nat py"
    using prow crow by (simp_all add: js_index_def split: if_splits)
  show ?thesis
  proof (cases "qy = py")
    case False
    then have "js_index (pixels c') qy = js_index (pixels c) qy"
      and "js_index (colors c') qy = js_index (colors c) qy"
      using pin cin by (auto simp: c' js_index_def)
    then show ?thesis by (simp add: pixel_at_def color_at_def)
  next
    case True
    with assms(2) have ne: "qx \<noteq> px" by simp
    have p1: "js_index (pixels c') qy = Some (js_set False prow px True)"
      and c1: "js_index (colors c') qy = Some (js_set None crow px k)"
      using pin cin True by (simp_all add: c' js_index_def)
    have p0: "js_index (pixels c) qy = Some prow" and c0: "js_index (colors c) qy = Some crow"
      using prow crow True by simp_all
    show ?thesis
      using js_set_elsewhere [OF ne, of False prow True] js_set_elsewhere [OF ne, of None crow k]
      by (simp add: pixel_at_def color_at_def p1 c1 p0 c0 color_case)
  qed
qed

lemma find_before:
  assumes "i < j" and "j < length ps" and "distinct ps" and "P (ps ! i)"
    and "\<And>q. q \<noteq> ps ! j \<Longrightarrow> Q q = P q"
  shows "find Q ps = find P ps \<and> (\<exists>q. find P ps = Some q \<and> q \<noteq> ps ! j)"
  using assms
proof (induction ps arbitrary: i j)
  case Nil
  then show ?case by simp
next
  case (Cons p ps)
  from Cons.prems(1) obtain j' where j: "j = Suc j'" by (cases j) simp_all
  from Cons.prems(2,3) j have pj: "p \<noteq> (p # ps) ! j" by auto
  show ?case
  proof (cases "P p")
    case True
    moreover from Cons.prems(5) [OF pj] True have "Q p" by simp
    ultimately show ?thesis using pj by simp
  next
    case False
    with Cons.prems(4) obtain i' where i: "i = Suc i'" by (cases i) simp_all
    from Cons.prems(5) [OF pj] False have nq: "\<not> Q p" by simp
    have "find Q ps = find P ps \<and> (\<exists>q. find P ps = Some q \<and> q \<noteq> ps ! j')"
    proof (rule Cons.IH)
      show "i' < j'" using Cons.prems(1) i j by simp
      show "j' < length ps" using Cons.prems(2) j by simp
      show "distinct ps" using Cons.prems(3) by simp
      show "P (ps ! i')" using Cons.prems(4) i by simp
      show "Q q = P q" if "q \<noteq> ps ! j'" for q using Cons.prems(5) [of q] that j by simp
    qed
    then show ?thesis using False nq j by simp
  qed
qed

lemma distinct_cell_scan: "distinct cell_scan"
  by (simp add: cell_scan_def)


text \<open>The example canvases, drawn step by step.\<close>

lemma js_index_Cons:
  "js_index (x # xs) i = (if i = 0 then Some x else if i < 0 then None else js_index xs (i - 1))"
  by (auto simp: js_index_def nth_Cons' nat_diff_distrib)

lemma js_index_Nil [simp]: "js_index [] i = None"
  by (simp add: js_index_def)

lemma red_pixel: "pixel_at red_canvas px py = (px = 0 \<and> py = 1)"
  by (simp add: pixel_at_def red_canvas_def js_index_Cons)

lemma red_color: "color_at red_canvas 0 1 = ''red''"
  by (simp add: color_at_def red_canvas_def js_index_Cons)

lemma blue_above_pixel: "pixel_at blue_above_canvas px py = (px = 0 \<and> (py = 0 \<or> py = 1))"
  by (auto simp: pixel_at_def blue_above_canvas_def js_index_Cons)

lemma blue_above_color: "color_at blue_above_canvas 0 0 = ''blue''"
  by (simp add: color_at_def blue_above_canvas_def js_index_Cons)

lemma blue_beside_pixel: "pixel_at blue_beside_canvas px py = ((px = 0 \<or> px = 1) \<and> py = 1)"
  by (auto simp: pixel_at_def blue_beside_canvas_def js_index_Cons)

lemma blue_beside_color: "color_at blue_beside_canvas 0 1 = ''red''"
  by (simp add: color_at_def blue_beside_canvas_def js_index_Cons)

lemma new_blank: "BrailleCanvas_new 1 1 = Inr blank_canvas"
  by (simp add: BrailleCanvas_new_def blank_canvas_def eval_nat_numeral)

lemma draw_red: "setPixel 0 1 (Some ''red'') blank_canvas = Inr red_canvas"
  by (simp add: setPixel_def pixelWidth_def pixelHeight_def blank_canvas_def red_canvas_def
      js_index_Cons js_set_def)

lemma draw_blue_above: "setPixel 0 0 (Some ''blue'') red_canvas = Inr blue_above_canvas"
  by (simp add: setPixel_def pixelWidth_def pixelHeight_def blue_above_canvas_def red_canvas_def
      js_index_Cons js_set_def)

lemma draw_blue_beside: "setPixel 1 1 (Some ''blue'') red_canvas = Inr blue_beside_canvas"
  by (simp add: setPixel_def pixelWidth_def pixelHeight_def blue_beside_canvas_def red_canvas_def
      js_index_Cons js_set_def)

text \<open>
  Claim C8. For every BrailleCanvas and every pixel coordinate \<open>(px, py)\<close> outside
  \<open>[0, pixelWidth) \<times> [0, pixelHeight)\<close>, \<open>setPixel(px, py, color)\<close> does not error and
  returns the canvas as it was, so every cell that \<open>getCell\<close> returns is unchanged.
\<close>

theorem C8_setPixel_outside_noop:
  assumes "px < 0 \<or> px \<ge> pixelWidth c \<or> py < 0 \<or> py \<ge> pixelHeight c"
  shows "setPixel px py k c = Inr c
       \<and> (case setPixel px py k c of
            Inl e \<Rightarrow> False
          | Inr c' \<Rightarrow> \<forall>col row. getCell col row c' = getCell col row c)"
  using assms by (simp add: setPixel_def)

text \<open>Claim C8, witness: the pixel \<open>(2, 1)\<close> on a canvas of one cell (2 by 4 pixels).\<close>

theorem C8_setPixel_outside_noop_witness:
  "((2::int) < 0 \<or> 2 \<ge> pixelWidth red_canvas \<or> (1::int) < 0 \<or> 1 \<ge> pixelHeight red_canvas)
   \<and> setPixel 2 1 (Some ''blue'') red_canvas = Inr red_canvas"
  using C8_setPixel_outside_noop [of 2 red_canvas 1 "Some ''blue''"]
  by (simp add: pixelWidth_def pixelHeight_def red_canvas_def)

text \<open>
  Claim C9, as amended. For every BrailleCanvas cell, \<open>getCell\<close> returns the glyph
  \<open>U+2800\<close> plus the OR of the bits of the cell's eight sub-pixels, and the colour
  stored at the first set sub-pixel in the fixed row-major scan order (\<open>gray\<close> when no
  sub-pixel is set). A colour drawn later into a sub-pixel of the cell that comes after
  an already set sub-pixel in the scan order does not change the cell's colour: the
  first sub-pixel in scan order wins, nothing is blended.
\<close>

theorem C9_getCell_glyph_and_color:
  "cell_ch (getCell col row c)
     = of_nat (0x2800
         + (sub_bit c col row (0, 0) OR sub_bit c col row (0, 1)
            OR sub_bit c col row (1, 0) OR sub_bit c col row (1, 1)
            OR sub_bit c col row (2, 0) OR sub_bit c col row (2, 1)
            OR sub_bit c col row (3, 0) OR sub_bit c col row (3, 1)))
   \<and> cell_color (getCell col row c)
       = (case find (sub_pixel c col row) cell_scan of
            None \<Rightarrow> ''gray''
          | Some p \<Rightarrow> sub_color c col row p)
   \<and> (\<forall>i j k c'.
         i < j \<and> j < length cell_scan \<and> sub_pixel c col row (cell_scan ! i)
         \<and> setPixel (col * 2 + snd (cell_scan ! j)) (row * 4 + fst (cell_scan ! j)) k c = Inr c'
         \<longrightarrow> cell_color (getCell col row c') = cell_color (getCell col row c))"
proof (intro conjI allI impI)
  have "fold (\<lambda>p a. a OR sub_bit c col row p) cell_scan 0
      = (sub_bit c col row (0, 0) OR sub_bit c col row (0, 1)
         OR sub_bit c col row (1, 0) OR sub_bit c col row (1, 1)
         OR sub_bit c col row (2, 0) OR sub_bit c col row (2, 1)
         OR sub_bit c col row (3, 0) OR sub_bit c col row (3, 1))"
    by (simp add: cell_scan_def or.assoc)
  then show "cell_ch (getCell col row c)
     = of_nat (0x2800
         + (sub_bit c col row (0, 0) OR sub_bit c col row (0, 1)
            OR sub_bit c col row (1, 0) OR sub_bit c col row (1, 1)
            OR sub_bit c col row (2, 0) OR sub_bit c col row (2, 1)
            OR sub_bit c col row (3, 0) OR sub_bit c col row (3, 1)))"
    by (simp add: getCell_eq)
next
  show "cell_color (getCell col row c)
       = (case find (sub_pixel c col row) cell_scan of
            None \<Rightarrow> ''gray''
          | Some p \<Rightarrow> sub_color c col row p)"
    by (simp add: getCell_eq)
next
  fix i j k c'
  assume a: "i < j \<and> j < length cell_scan \<and> sub_pixel c col row (cell_scan ! i)
         \<and> setPixel (col * 2 + snd (cell_scan ! j)) (row * 4 + fst (cell_scan ! j)) k c = Inr c'"
  let ?pj = "cell_scan ! j"
  from a have ij: "i < j" and j: "j < length cell_scan"
    and set_i: "sub_pixel c col row (cell_scan ! i)"
    and draw: "setPixel (col * 2 + snd ?pj) (row * 4 + fst ?pj) k c = Inr c'"
    by simp_all
  have other: "sub_pixel c' col row q = sub_pixel c col row q
             \<and> sub_color c' col row q = sub_color c col row q" if "q \<noteq> ?pj" for q
  proof -
    from that have "col * 2 + snd q \<noteq> col * 2 + snd ?pj \<or> row * 4 + fst q \<noteq> row * 4 + fst ?pj"
      by (auto simp: prod_eq_iff)
    from setPixel_elsewhere [OF draw this] show ?thesis
      by (simp add: sub_pixel_def sub_color_def)
  qed
  have "find (sub_pixel c' col row) cell_scan = find (sub_pixel c col row) cell_scan
        \<and> (\<exists>q. find (sub_pixel c col row) cell_scan = Some q \<and> q \<noteq> ?pj)"
    using ij j distinct_cell_scan set_i
  proof (rule find_before)
    show "sub_pixel c' col row q = sub_pixel c col row q" if "q \<noteq> ?pj" for q
      using other [OF that] by simp
  qed
  then obtain q where same: "find (sub_pixel c' col row) cell_scan = Some q"
    and q: "find (sub_pixel c col row) cell_scan = Some q" and ne: "q \<noteq> ?pj"
    by auto
  show "cell_color (getCell col row c') = cell_color (getCell col row c)"
    using other [OF ne] by (simp add: getCell_eq same q)
qed

text \<open>Claim C9, witness: a cell whose sub-pixel \<open>(0, 1)\<close> is red keeps the glyph bit
  \<open>0x02\<close> and the colour red when \<open>(1, 1)\<close> is drawn blue.\<close>

theorem C9_getCell_glyph_and_color_witness:
  "(2::nat) < 3 \<and> 3 < length cell_scan \<and> sub_pixel red_canvas 0 0 (cell_scan ! 2)
   \<and> setPixel (0 * 2 + snd (cell_scan ! 3)) (0 * 4 + fst (cell_scan ! 3)) (Some ''blue'') red_canvas
       = Inr blue_beside_canvas
   \<and> cell_ch (getCell 0 0 red_canvas) = 0x2802
   \<and> cell_color (getCell 0 0 red_canvas) = ''red''
   \<and> cell_color (getCell 0 0 blue_beside_canvas) = ''red''"
proof -
  have h1: "(2::nat) < 3" by simp
  have h2: "3 < length cell_scan" by (simp add: cell_scan_def)
  have h3: "sub_pixel red_canvas 0 0 (cell_scan ! 2)"
    by (simp add: cell_scan_def sub_pixel_def red_pixel)
  have h4: "setPixel (0 * 2 + snd (cell_scan ! 3)) (0 * 4 + fst (cell_scan ! 3)) (Some ''blue'')
              red_canvas = Inr blue_beside_canvas"
    by (simp add: cell_scan_def draw_blue_beside)
  have bits: "sub_bit red_canvas 0 0 (0, 0) = 0" "sub_bit red_canvas 0 0 (0, 1) = 0"
    "sub_bit red_canvas 0 0 (1, 0) = 2" "sub_bit red_canvas 0 0 (1, 1) = 0"
    "sub_bit red_canvas 0 0 (2, 0) = 0" "sub_bit red_canvas 0 0 (2, 1) = 0"
    "sub_bit red_canvas 0 0 (3, 0) = 0" "sub_bit red_canvas 0 0 (3, 1) = 0"
    by (simp_all add: sub_bit_def sub_pixel_def red_pixel BRAILLE_BITS_def)
  have found: "find (sub_pixel red_canvas 0 0) cell_scan = Some (1, 0)"
    by (simp add: cell_scan_def sub_pixel_def red_pixel)
  have col: "sub_color red_canvas 0 0 (1, 0) = ''red''"
    by (simp add: sub_color_def red_color)
  note inst = C9_getCell_glyph_and_color [of 0 0 red_canvas]
  from inst have g: "cell_ch (getCell 0 0 red_canvas) = 0x2802"
    and r: "cell_color (getCell 0 0 red_canvas) = ''red''"
    by (simp_all add: bits found col)
  from inst h1 h2 h3 h4 have "cell_color (getCell 0 0 blue_beside_canvas)
      = cell_color (getCell 0 0 red_canvas)"
    by blast
  with r have "cell_color (getCell 0 0 blue_beside_canvas) = ''red''" by simp
  with h1 h2 h3 h4 g r show ?thesis by blast
qed

text \<open>
  Claim C9, counterexample to "colours drawn later into the same cell do not override":
  on a new canvas of one cell, \<open>setPixel(0, 1, "red")\<close> makes the cell red, and the later
  \<open>setPixel(0, 0, "blue")\<close> makes it blue.
\<close>

theorem C9_later_color_overrides_counterexample:
  "BrailleCanvas_new 1 1 = Inr blank_canvas
   \<and> setPixel 0 1 (Some ''red'') blank_canvas = Inr red_canvas
   \<and> cell_color (getCell 0 0 red_canvas) = ''red''
   \<and> setPixel 0 0 (Some ''blue'') red_canvas = Inr blue_above_canvas
   \<and> cell_color (getCell 0 0 blue_above_canvas) = ''blue''"
proof -
  have "find (sub_pixel red_canvas 0 0) cell_scan = Some (1, 0)"
    by (simp add: cell_scan_def sub_pixel_def red_pixel)
  then have red: "cell_color (getCell 0 0 red_canvas) = ''red''"
    by (simp add: getCell_eq sub_color_def red_color)
  have "find (sub_pixel blue_above_canvas 0 0) cell_scan = Some (0, 0)"
    by (simp add: cell_scan_def sub_pixel_def blue_above_pixel)
  then have blue: "cell_color (getCell 0 0 blue_above_canvas) = ''blue''"
    by (simp add: getCell_eq sub_color_def blue_above_color)
  from new_blank draw_red red draw_blue_above blue show ?thesis by blast
qed


subsection \<open>BarChart\<close>

text \<open>The constructor makes a well-formed canvas; \<open>clear\<close> and \<open>setPixel\<close> keep
  it well-formed, and on a well-formed canvas \<open>setPixel\<close> does not throw.\<close>

lemma wf_canvas_new:
  assumes "BrailleCanvas_new cs rs = Inr c"
  shows "wf_canvas c"
  using assms
  by (auto simp: BrailleCanvas_new_def wf_canvas_def pixelHeight_def pixelWidth_def Let_def
      list_all_iff split: if_splits)

lemma wf_canvas_clear: "wf_canvas c \<Longrightarrow> wf_canvas (clear c)"
  by (auto simp: wf_canvas_def clear_def pixelHeight_def pixelWidth_def list_all_iff)

lemma pixel_at_clear: "\<not> pixel_at (clear c) px py"
  by (auto simp: pixel_at_def clear_def js_index_def split: option.splits)

lemma setPixel_wf:
  assumes "wf_canvas c"
  shows "\<exists>c'. setPixel px py k c = Inr c' \<and> wf_canvas c'
            \<and> pixelHeight c' = pixelHeight c \<and> pixelWidth c' = pixelWidth c"
proof (cases "px < 0 \<or> px \<ge> pixelWidth c \<or> py < 0 \<or> py \<ge> pixelHeight c")
  case True
  with assms show ?thesis by (simp add: setPixel_def)
next
  case False
  then have px: "0 \<le> px" "px < pixelWidth c" and py: "0 \<le> py" "py < pixelHeight c" by simp_all
  from assms have lp: "length (pixels c) = nat (pixelHeight c)"
    and lc: "length (colors c) = nat (pixelHeight c)"
    and wp: "\<And>r. r \<in> set (pixels c) \<Longrightarrow> length r = nat (pixelWidth c)"
    and wc: "\<And>r. r \<in> set (colors c) \<Longrightarrow> length r = nat (pixelWidth c)"
    by (simp_all add: wf_canvas_def list_all_iff)
  let ?prow = "pixels c ! nat py" and ?crow = "colors c ! nat py"
  have ip: "js_index (pixels c) py = Some ?prow" and ic: "js_index (colors c) py = Some ?crow"
    using py lp lc by (simp_all add: js_index_def)
  have "?prow \<in> set (pixels c)" "?crow \<in> set (colors c)" using py lp lc by simp_all
  then have lpr: "length ?prow = nat (pixelWidth c)" and lcr: "length ?crow = nat (pixelWidth c)"
    using wp wc by simp_all
  have sp: "js_set False ?prow px True = ?prow[nat px := True]"
    and sc: "js_set None ?crow px k = ?crow[nat px := k]"
    using px lpr lcr by (simp_all add: js_set_def)
  let ?c' = "c\<lparr>pixels := (pixels c)[nat py := ?prow[nat px := True]],
                colors := (colors c)[nat py := ?crow[nat px := k]]\<rparr>"
  have eq: "setPixel px py k c = Inr ?c'"
    using False by (simp add: setPixel_def ip ic sp sc)
  have "wf_canvas ?c'"
    unfolding wf_canvas_def list_all_iff
    using lp lc wp wc lpr lcr
    by (auto simp: pixelHeight_def pixelWidth_def dest!: set_update_subset_insert [THEN subsetD])
  with eq show ?thesis by (simp add: pixelHeight_def pixelWidth_def)
qed

text \<open>A property of the loop index and the state that holds when a loop begins and
  that every round carries to the next index holds at the upper bound when the loop
  ends.\<close>

lemma for_loop_indexed:
  assumes "lo \<le> hi" and "P lo s"
    and "\<And>i s. lo \<le> i \<Longrightarrow> i < hi \<Longrightarrow> P i s \<Longrightarrow> P (i + 1) (body i s)"
  shows "P hi (for_loop lo hi body s)"
  using assms
proof (induction lo hi body s rule: for_loop.induct)
  case (1 i hi body s)
  show ?case
  proof (cases "i < hi")
    case True
    have "P hi (for_loop (i + 1) hi body (body i s))"
    proof (rule "1.IH" [OF True])
      show "i + 1 \<le> hi" using True by simp
      show "P (i + 1) (body i s)" using "1.prems"(2) True by (intro "1.prems"(3)) simp_all
      show "P (j + 1) (body j t)" if "i + 1 \<le> j" "j < hi" "P j t" for j t
        using that by (intro "1.prems"(3)) simp_all
    qed
    with True show ?thesis by (simp add: for_loop_step)
  next
    case False
    with "1.prems"(1) have "i = hi" by simp
    with "1.prems"(2) show ?thesis by (simp add: for_loop_done)
  qed
qed

lemma for_loop_once: "for_loop y (y + 1) body s = body y s"
  by (simp add: for_loop_step for_loop_done)

text \<open>\<open>setPixel\<close> sets the pixel it is given when the pixel is on the canvas, and
  no other.\<close>

lemma js_index_js_set_same: "0 \<le> i \<Longrightarrow> js_index (js_set h xs i v) i = Some v"
  by (auto simp: js_index_def js_set_def nth_append)

lemma setPixel_here:
  assumes "setPixel px py k c = Inr c'" and "in_canvas c px py"
  shows "pixel_at c' px py"
proof -
  from assms(2) have inb: "\<not> (px < 0 \<or> px \<ge> pixelWidth c \<or> py < 0 \<or> py \<ge> pixelHeight c)"
    and px: "0 \<le> px" by (auto simp: in_canvas_def)
  with assms(1) obtain prow crow where prow: "js_index (pixels c) py = Some prow"
    and c': "c' = c\<lparr>pixels := (pixels c)[nat py := js_set False prow px True],
                     colors := (colors c)[nat py := js_set None crow px k]\<rparr>"
    by (auto simp: setPixel_def split: option.splits)
  from prow have "0 \<le> py" "py < int (length (pixels c))"
    by (simp_all add: js_index_def split: if_splits)
  then have "js_index (pixels c') py = Some (js_set False prow px True)"
    by (simp add: c' js_index_def)
  then show ?thesis
    by (simp add: pixel_at_def js_index_js_set_same [OF px])
qed

lemma drawn_result_cong:
  assumes "\<And>qx qy. S qx qy = T qx qy"
  shows "drawn_result c0 S r = drawn_result c0 T r"
proof -
  from assms have "S = T" by (intro ext)
  then show ?thesis by simp
qed

lemma drawn_result_start:
  assumes "wf_canvas c"
  shows "drawn_result c (\<lambda>qx qy. False) (Inr c)"
  using assms by (simp add: drawn_result_def)

lemma setPixel_drawn:
  assumes "drawn_result c0 S r"
  shows "drawn_result c0 (\<lambda>qx qy. S qx qy \<or> (qx = px \<and> qy = py))
           (case r of Inl e \<Rightarrow> Inl e | Inr c \<Rightarrow> setPixel px py k c)"
proof -
  from assms obtain c where r: "r = Inr c" and wf: "wf_canvas c"
    and sz: "pixelHeight c = pixelHeight c0" "pixelWidth c = pixelWidth c0"
    and px: "\<And>qx qy. pixel_at c qx qy = (pixel_at c0 qx qy \<or> (S qx qy \<and> in_canvas c0 qx qy))"
    by (auto simp: drawn_result_def split: sum.splits)
  from setPixel_wf [OF wf, of px py k] obtain c' where c': "setPixel px py k c = Inr c'"
    and wf': "wf_canvas c'" and sz': "pixelHeight c' = pixelHeight c" "pixelWidth c' = pixelWidth c"
    by blast
  have inc: "in_canvas c qx qy = in_canvas c0 qx qy" for qx qy
    using sz by (simp add: in_canvas_def)
  have "pixel_at c' qx qy
        = (pixel_at c0 qx qy \<or> ((S qx qy \<or> (qx = px \<and> qy = py)) \<and> in_canvas c0 qx qy))"
    for qx qy
  proof (cases "qx \<noteq> px \<or> qy \<noteq> py")
    case True
    from setPixel_elsewhere [OF c' True] have "pixel_at c' qx qy = pixel_at c qx qy" by simp
    with True show ?thesis by (auto simp: px)
  next
    case False
    then have here: "qx = px" "qy = py" by simp_all
    show ?thesis
    proof (cases "in_canvas c px py")
      case True
      from setPixel_here [OF c' True] True show ?thesis by (simp add: here inc)
    next
      case False
      then have "px < 0 \<or> px \<ge> pixelWidth c \<or> py < 0 \<or> py \<ge> pixelHeight c"
        by (auto simp: in_canvas_def)
      with c' have "c' = c" by (simp add: setPixel_def)
      with False show ?thesis by (simp add: here px inc)
    qed
  qed
  with wf' sz sz' show ?thesis by (simp add: r c' drawn_result_def)
qed

text \<open>A bar whose top is its bottom row \<open>y\<close> sets the pixels of row \<open>y\<close> in the
  columns \<open>x .. x + w - 1\<close>.\<close>

lemma drawBar_drawn:
  assumes "drawn_result c0 S (Inr c)" and "0 \<le> w"
  shows "drawn_result c0 (\<lambda>qx qy. S qx qy \<or> (qy = y \<and> x \<le> qx \<and> qx < x + w))
           (drawBar x y y w k c)"
  unfolding drawBar_def
proof (rule for_loop_indexed
    [where P = "\<lambda>i. drawn_result c0 (\<lambda>qx qy. S qx qy \<or> (qy = y \<and> x \<le> qx \<and> qx < i))"])
  show "x \<le> x + w" using assms(2) by simp
  have "drawn_result c0 (\<lambda>qx qy. S qx qy \<or> (qy = y \<and> x \<le> qx \<and> qx < x)) (Inr c)
        = drawn_result c0 S (Inr c)"
    by (rule drawn_result_cong) auto
  with assms(1)
  show "drawn_result c0 (\<lambda>qx qy. S qx qy \<or> (qy = y \<and> x \<le> qx \<and> qx < x)) (Inr c)" by simp
next
  fix i :: int and r :: "js_error + BrailleCanvas"
  assume i: "x \<le> i" "i < x + w"
    and r: "drawn_result c0 (\<lambda>qx qy. S qx qy \<or> (qy = y \<and> x \<le> qx \<and> qx < i)) r"
  have "drawn_result c0 (\<lambda>qx qy. S qx qy \<or> (qy = y \<and> x \<le> qx \<and> qx < i + 1))
          (case r of Inl e \<Rightarrow> Inl e | Inr c' \<Rightarrow> setPixel i y k c')
        = drawn_result c0
            (\<lambda>qx qy. (S qx qy \<or> (qy = y \<and> x \<le> qx \<and> qx < i)) \<or> (qx = i \<and> qy = y))
            (case r of Inl e \<Rightarrow> Inl e | Inr c' \<Rightarrow> setPixel i y k c')"
    using i by (intro drawn_result_cong) auto
  with setPixel_drawn [OF r, of i y k]
  show "drawn_result c0 (\<lambda>qx qy. S qx qy \<or> (qy = y \<and> x \<le> qx \<and> qx < i + 1))
          (for_loop y (y + 1)
             (\<lambda>py r. case r of Inl e \<Rightarrow> Inl e | Inr c' \<Rightarrow> setPixel i py k c') r)"
    by (simp add: for_loop_once)
qed

lemma Math_max_zeros:
  assumes "\<forall>v\<in>set vs. v = 0" and "0 \<le> eps"
  shows "Math_max vs eps = eps"
  using assms unfolding Math_max_def by (induction vs) simp_all

lemma barH_zero:
  assumes "fl 0 = 0" and "mx \<noteq> 0"
  shows "barH fl 0 mx ph = Some 0"
  using assms by (simp add: barH_def js_div_def Math_round_def)

lemma barPx_pos: "1 \<le> barPx fl totalPx n"
  by (simp add: barPx_def)

lemma gapPx_nonneg: "0 \<le> gapPx fl totalPx n"
  by (simp add: gapPx_def)

text \<open>One round of the render loop on all-zero values draws the bottom row of
  bar \<open>i\<close>.\<close>

lemma ex_below_Suc:
  assumes "0 \<le> i"
  shows "(\<exists>j::int. 0 \<le> j \<and> j < i + 1 \<and> P j) = ((\<exists>j. 0 \<le> j \<and> j < i \<and> P j) \<or> P i)"
proof
  assume "\<exists>j. 0 \<le> j \<and> j < i + 1 \<and> P j"
  then obtain j where j: "0 \<le> j" "j < i + 1" "P j" by blast
  show "(\<exists>j. 0 \<le> j \<and> j < i \<and> P j) \<or> P i"
  proof (cases "j = i")
    case True
    with j show ?thesis by simp
  next
    case False
    with j have "j < i" by simp
    with j show ?thesis by blast
  qed
next
  assume "(\<exists>j. 0 \<le> j \<and> j < i \<and> P j) \<or> P i"
  then show "\<exists>j. 0 \<le> j \<and> j < i + 1 \<and> P j"
  proof
    assume "\<exists>j. 0 \<le> j \<and> j < i \<and> P j"
    then obtain j where "0 \<le> j" "j < i" "P j" by blast
    then have "0 \<le> j \<and> j < i + 1 \<and> P j" by simp
    then show ?thesis by blast
  next
    assume "P i"
    with assms have "0 \<le> i \<and> i < i + 1 \<and> P i" by simp
    then show ?thesis by blast
  qed
qed

lemma render_bar_drawn:
  assumes x: "fst st = gp + i * (bp + gp)"
    and cv: "snd st = Inr cv"
    and dr: "drawn_result c0
               (\<lambda>qx qy. qy = ph - 1
                  \<and> (\<exists>j. 0 \<le> j \<and> j < i \<and> gp + j * (bp + gp) \<le> qx \<and> qx < gp + j * (bp + gp) + bp))
               (Inr cv)"
    and i: "0 \<le> i" "i < int (length vs)"
    and zero: "\<forall>v\<in>set vs. v = 0"
    and fl: "fl 0 = 0" and mx: "mx \<noteq> 0" and bp: "0 \<le> bp"
  shows "\<exists>cv'. render_bar fl vs mx ph bp gp i st = (gp + (i + 1) * (bp + gp), Inr cv')
          \<and> drawn_result c0
               (\<lambda>qx qy. qy = ph - 1
                  \<and> (\<exists>j. 0 \<le> j \<and> j < i + 1 \<and> gp + j * (bp + gp) \<le> qx
                          \<and> qx < gp + j * (bp + gp) + bp))
               (Inr cv')"
proof -
  let ?x = "gp + i * (bp + gp)"
  from x cv have st: "st = (?x, Inr cv)" by (cases st) simp
  from i have "vs ! nat i \<in> set vs" by simp
  with zero have "vs ! nat i = 0" by blast
  then have bh: "barH fl (vs ! nat i) mx ph = Some 0" using fl mx by (simp add: barH_zero)
  let ?k = "Some (PALETTE ! nat (i mod int (length PALETTE)))"
  let ?r = "drawBar ?x (ph - 1) (ph - 1) bp ?k cv"
  let ?S = "\<lambda>qx qy. qy = ph - 1
      \<and> (\<exists>j. 0 \<le> j \<and> j < i \<and> gp + j * (bp + gp) \<le> qx \<and> qx < gp + j * (bp + gp) + bp)"
  have "drawn_result c0 (\<lambda>qx qy. ?S qx qy \<or> (qy = ph - 1 \<and> ?x \<le> qx \<and> qx < ?x + bp)) ?r"
    using dr bp by (rule drawBar_drawn)
  moreover have "drawn_result c0
        (\<lambda>qx qy. qy = ph - 1
           \<and> (\<exists>j. 0 \<le> j \<and> j < i + 1 \<and> gp + j * (bp + gp) \<le> qx \<and> qx < gp + j * (bp + gp) + bp)) ?r
      = drawn_result c0 (\<lambda>qx qy. ?S qx qy \<or> (qy = ph - 1 \<and> ?x \<le> qx \<and> qx < ?x + bp)) ?r"
  proof (rule drawn_result_cong)
    fix qx qy
    show "(qy = ph - 1
           \<and> (\<exists>j. 0 \<le> j \<and> j < i + 1 \<and> gp + j * (bp + gp) \<le> qx \<and> qx < gp + j * (bp + gp) + bp))
        = (?S qx qy \<or> (qy = ph - 1 \<and> ?x \<le> qx \<and> qx < ?x + bp))"
      using ex_below_Suc [OF i(1),
          of "\<lambda>j. gp + j * (bp + gp) \<le> qx \<and> qx < gp + j * (bp + gp) + bp"]
      by blast
  qed
  ultimately have res: "drawn_result c0
        (\<lambda>qx qy. qy = ph - 1
           \<and> (\<exists>j. 0 \<le> j \<and> j < i + 1 \<and> gp + j * (bp + gp) \<le> qx \<and> qx < gp + j * (bp + gp) + bp)) ?r"
    by simp
  then obtain cv' where cv': "?r = Inr cv'" by (auto simp: drawn_result_def split: sum.splits)
  have "render_bar fl vs mx ph bp gp i st = (?x + bp + gp, Inr cv')"
    by (simp add: render_bar_def st bh cv' Let_def)
  moreover have "?x + bp + gp = gp + (i + 1) * (bp + gp)" by (simp add: algebra_simps)
  ultimately have "render_bar fl vs mx ph bp gp i st = (gp + (i + 1) * (bp + gp), Inr cv')"
    by simp
  with res cv' show ?thesis by simp
qed

text \<open>
  Claim C10. For a BarChart with pending data whose values are all zero (at least one
  value, on a well-formed canvas), and for every rounding \<open>fl\<close> of the double
  arithmetic that keeps 0 and rounds \<open>0.001\<close> to a positive number, rasterization
  completes with no division by zero and no exception; the divisor \<open>_max\<close> is the
  epsilon \<open>0.001\<close>, not zero; every bar has the height \<open>barH = 0\<close>; and each bar is
  drawn with \<open>top = bottom = ph - 1\<close>: the pixels set afterwards are exactly the pixels
  of the bottom pixel row \<open>ph - 1\<close> in the columns of the bars.
\<close>

theorem C10_all_zero_bars:
  assumes "fl 0 = 0" and "0 < fl (1 / 1000)"
    and "wf_canvas (canvas b)" and "dirty b" and "bar_values b \<noteq> []"
    and "\<forall>v\<in>set (bar_values b). v = 0"
  shows "\<exists>b'. BarChart_render fl b = Inr b'
            \<and> bc_max b' = fl (1 / 1000) \<and> bc_max b' \<noteq> 0
            \<and> (\<forall>i < length (bar_values b).
                   barH fl (bar_values b ! i) (bc_max b') (pixelHeight (canvas b)) = Some 0)
            \<and> (\<forall>px py. pixel_at (canvas b') px py
                 = (py = pixelHeight (canvas b) - 1 \<and> 0 \<le> py
                    \<and> 0 \<le> px \<and> px < pixelWidth (canvas b)
                    \<and> (\<exists>i. 0 \<le> i \<and> i < int (length (bar_values b))
                          \<and> bar_x fl (pixelWidth (canvas b)) (int (length (bar_values b))) i \<le> px
                          \<and> px < bar_x fl (pixelWidth (canvas b)) (int (length (bar_values b))) i
                                 + barPx fl (pixelWidth (canvas b)) (int (length (bar_values b))))))"
proof -
  let ?vs = "bar_values b"
  let ?c0 = "clear (canvas b)"
  let ?ph = "pixelHeight (canvas b)" and ?pw = "pixelWidth (canvas b)"
  let ?n = "int (length ?vs)"
  let ?bp = "barPx fl ?pw ?n" and ?gp = "gapPx fl ?pw ?n"
  let ?mx = "Math_max ?vs (fl (1 / 1000))"
  let ?R = "\<lambda>i qx qy. qy = ?ph - 1
      \<and> (\<exists>j. 0 \<le> j \<and> j < i \<and> ?gp + j * (?bp + ?gp) \<le> qx \<and> qx < ?gp + j * (?bp + ?gp) + ?bp)"
  let ?Q = "\<lambda>i st. fst st = ?gp + i * (?bp + ?gp)
      \<and> (\<exists>cv. snd st = Inr cv \<and> drawn_result ?c0 (?R i) (Inr cv))"
  let ?loop = "for_loop 0 ?n (render_bar fl ?vs ?mx ?ph ?bp ?gp) (?gp, Inr ?c0)"
  have mx: "?mx = fl (1 / 1000)" using assms(2,6) by (intro Math_max_zeros) simp_all
  with assms(2) have mx0: "?mx \<noteq> 0" by simp
  have sz: "pixelHeight ?c0 = ?ph" "pixelWidth ?c0 = ?pw"
    by (simp_all add: clear_def pixelHeight_def pixelWidth_def)
  have bp: "0 \<le> ?bp" using barPx_pos [of fl ?pw ?n] by simp
  have "?Q ?n ?loop"
  proof (rule for_loop_indexed [where P = ?Q])
    show "0 \<le> ?n" by simp
    have "drawn_result ?c0 (?R 0) (Inr ?c0) = drawn_result ?c0 (\<lambda>qx qy. False) (Inr ?c0)"
      by (rule drawn_result_cong) auto
    with drawn_result_start [OF wf_canvas_clear [OF assms(3)]]
    show "?Q 0 (?gp, Inr ?c0)" by simp
  next
    fix i :: int and st :: "int \<times> (render_fault + BrailleCanvas)"
    assume i: "0 \<le> i" "i < ?n" and q: "?Q i st"
    then obtain cv where x: "fst st = ?gp + i * (?bp + ?gp)" and cv: "snd st = Inr cv"
      and dr: "drawn_result ?c0 (?R i) (Inr cv)" by blast
    from render_bar_drawn [where st = st and gp = ?gp and bp = ?bp and i = i and ph = ?ph
        and ?c0.0 = ?c0 and cv = cv and vs = ?vs and fl = fl and mx = ?mx,
        OF x cv dr i assms(6) assms(1) mx0 bp]
    show "?Q (i + 1) (render_bar fl ?vs ?mx ?ph ?bp ?gp i st)" by auto
  qed
  then obtain x cv' where loop: "?loop = (x, Inr cv')"
    and dr: "drawn_result ?c0 (?R ?n) (Inr cv')"
    by (cases ?loop) auto
  let ?b' = "b\<lparr>dirty := False, canvas := cv', bc_max := ?mx\<rparr>"
  have render: "BarChart_render fl b = Inr ?b'"
    using assms(4,5) loop by (simp add: BarChart_render_def Let_def sz)
  have zero: "barH fl (?vs ! i) (bc_max ?b') ?ph = Some 0" if "i < length ?vs" for i
  proof -
    from that have "?vs ! i \<in> set ?vs" by simp
    with assms(6) have "?vs ! i = 0" by blast
    then show ?thesis using assms(1) mx0 by (simp add: barH_zero)
  qed
  have pix: "pixel_at cv' px py
      = (py = ?ph - 1 \<and> 0 \<le> py \<and> 0 \<le> px \<and> px < ?pw
         \<and> (\<exists>i. 0 \<le> i \<and> i < ?n \<and> bar_x fl ?pw ?n i \<le> px \<and> px < bar_x fl ?pw ?n i + ?bp))"
    for px py
  proof -
    from dr have "pixel_at cv' px py
        = (pixel_at ?c0 px py \<or> (?R ?n px py \<and> in_canvas ?c0 px py))"
      by (simp add: drawn_result_def)
    then show ?thesis
      by (auto simp: pixel_at_clear in_canvas_def sz bar_x_def)
  qed
  show ?thesis
  proof (intro exI conjI allI impI)
    show "BarChart_render fl b = Inr ?b'" by (rule render)
    show "bc_max ?b' = fl (1 / 1000)" using mx by simp
    show "bc_max ?b' \<noteq> 0" using mx0 by simp
    show "barH fl (?vs ! i) (bc_max ?b') ?ph = Some 0" if "i < length ?vs" for i
      using that by (rule zero)
    show "pixel_at (canvas ?b') px py
      = (py = ?ph - 1 \<and> 0 \<le> py \<and> 0 \<le> px \<and> px < ?pw
         \<and> (\<exists>i. 0 \<le> i \<and> i < ?n \<and> bar_x fl ?pw ?n i \<le> px \<and> px < bar_x fl ?pw ?n i + ?bp))"
      for px py
      using pix [of px py] by simp
  qed
qed

text \<open>The example chart is the chart \<open>new BarChart(12, 5, [0, 0, 0], ...)\<close>. With
  exact arithmetic its bars are 3 pixels wide, with gaps of 2 pixels.\<close>

lemma example_chart_new: "BarChart_new 12 5 [0, 0, 0] = Inr example_chart"
  by (simp add: BarChart_new_def BrailleCanvas_new_def example_chart_def Let_def)

lemma example_chart_bars:
  "barPx (\<lambda>x. x) 20 3 = 3" "gapPx (\<lambda>x. x) 20 3 = 2" "bar_x (\<lambda>x. x) 20 3 i = 2 + i * 5"
proof -
  show bp: "barPx (\<lambda>x. x) 20 3 = 3" by (simp add: barPx_def)
  have "\<lfloor>(11::real) / 4\<rfloor> = 2" by linarith
  then show gp: "gapPx (\<lambda>x. x) 20 3 = 2" by (simp add: gapPx_def bp)
  show "bar_x (\<lambda>x. x) 20 3 i = 2 + i * 5" by (simp add: bar_x_def bp gp)
qed

text \<open>Claim C10, witness: the example chart with the values \<open>[0, 0, 0]\<close>. Its three
  bars mark the columns 2 to 4, 7 to 9 and 12 to 14 of the bottom pixel row 7.\<close>

theorem C10_all_zero_bars_witness:
  "BarChart_new 12 5 [0, 0, 0] = Inr example_chart
   \<and> wf_canvas (canvas example_chart) \<and> dirty example_chart
   \<and> bar_values example_chart = [0, 0, 0]
   \<and> (\<exists>b'. BarChart_render (\<lambda>x. x) example_chart = Inr b' \<and> bc_max b' = 1 / 1000
         \<and> barH (\<lambda>x. x) (bar_values example_chart ! 2) (bc_max b') 8 = Some 0
         \<and> pixel_at (canvas b') 2 7 \<and> pixel_at (canvas b') 13 7
         \<and> \<not> pixel_at (canvas b') 2 6 \<and> \<not> pixel_at (canvas b') 0 7
         \<and> \<not> pixel_at (canvas b') 5 7)"
proof -
  have h1: "wf_canvas (canvas example_chart)"
    by (simp add: example_chart_def wf_canvas_def pixelHeight_def pixelWidth_def list_all_iff)
  have h2: "dirty example_chart" by (simp add: example_chart_def)
  have vs: "bar_values example_chart = [0, 0, 0]" by (simp add: example_chart_def)
  have h3: "bar_values example_chart \<noteq> []" by (simp add: vs)
  have h4: "\<forall>v\<in>set (bar_values example_chart). v = 0" by (simp add: vs)
  have ph: "pixelHeight (canvas example_chart) = 8" by (simp add: example_chart_def pixelHeight_def)
  have pw: "pixelWidth (canvas example_chart) = 20" by (simp add: example_chart_def pixelWidth_def)
  have n: "int (length (bar_values example_chart)) = 3" by (simp add: vs)
  have len: "(2::nat) < length (bar_values example_chart)" by (simp add: vs)
  have f0: "(\<lambda>x::real. x) 0 = 0" and f1: "0 < (\<lambda>x::real. x) (1 / 1000)" by simp_all
  from C10_all_zero_bars [of "\<lambda>x. x" example_chart, OF f0 f1 h1 h2 h3 h4] obtain b' where
    r: "BarChart_render (\<lambda>x. x) example_chart = Inr b'" and m: "bc_max b' = 1 / 1000"
    and z: "\<forall>i < length (bar_values example_chart).
        barH (\<lambda>x. x) (bar_values example_chart ! i) (bc_max b')
          (pixelHeight (canvas example_chart)) = Some 0"
    and f: "\<And>px py. pixel_at (canvas b') px py
         = (py = 7 \<and> 0 \<le> py \<and> 0 \<le> px \<and> px < 20
            \<and> (\<exists>i. 0 \<le> i \<and> i < 3 \<and> 2 + i * 5 \<le> px \<and> px < 2 + i * 5 + 3))"
    unfolding ph pw n example_chart_bars by auto
  from z len ph have z2: "barH (\<lambda>x. x) (bar_values example_chart ! 2) (bc_max b') 8 = Some 0"
    by auto
  have p1: "pixel_at (canvas b') 2 7" unfolding f by (intro conjI exI [of _ 0]) simp_all
  have p2: "pixel_at (canvas b') 13 7" unfolding f by (intro conjI exI [of _ 2]) simp_all
  have p3: "\<not> pixel_at (canvas b') 2 6" unfolding f by simp
  have p4: "\<not> pixel_at (canvas b') 0 7" unfolding f by auto
  have p5: "\<not> pixel_at (canvas b') 5 7" unfolding f by auto
  from example_chart_new h1 h2 vs r m z2 p1 p2 p3 p4 p5 show ?thesis by blast
qed

text \<open>The same pixels, by running the model of \<open>_render\<close> on the example
  chart.\<close>

lemma example_chart_baseline:
  "(case BarChart_render (\<lambda>x. x) example_chart of
      Inl e \<Rightarrow> False
    | Inr b' \<Rightarrow> pixel_at (canvas b') 2 7 \<and> \<not> pixel_at (canvas b') 2 6
                 \<and> \<not> pixel_at (canvas b') 0 7)"
  by code_simp

end
